theory Spec2Isabelle
  imports Complex_Main "HOL-Library.AList"
begin

section \<open>Python containers\<close>

text \<open>
  A Python \<open>dict\<close> keeps its keys in insertion order, and storing under a key that is
  already present keeps that key's position.  An association list with
  \<open>AList.update\<close> (replace in place, else append) and \<open>map_of\<close> (lookup) has exactly
  this behaviour; \<open>len\<close> is \<open>length\<close>, \<open>items()\<close> is the list itself.
\<close>

type_synonym ('k, 'v) dict = "('k \<times> 'v) list"

datatype error = KeyError | ValueError | IndexError

definition dict_get :: "('k, 'v) dict \<Rightarrow> 'k \<Rightarrow> error + 'v" where
  "dict_get d k = (case map_of d k of None \<Rightarrow> Inl KeyError | Some v \<Rightarrow> Inr v)"

text \<open>\<open>dict(pairs)\<close>: the pairs are stored one after the other.\<close>

definition dict_of :: "('k \<times> 'v) list \<Rightarrow> ('k, 'v) dict" where
  "dict_of ps = foldl (\<lambda>d (k, v). AList.update k v d) [] ps"

text \<open>
  \<open>collections.Counter(words)\<close>: every element, left to right, increments its count
  (a missing key counts as 0).
\<close>

definition Counter :: "'a list \<Rightarrow> ('a, nat) dict" where
  "Counter words =
     foldl (\<lambda>c w. AList.update w (case map_of c w of None \<Rightarrow> 1 | Some n \<Rightarrow> n + 1) c) [] words"

text \<open>
  \<open>Counter.most_common()\<close> is \<open>sorted(self.items(), key=itemgetter(1), reverse=True)\<close>:
  a stable sort by descending count.  \<open>sort_key\<close> is a stable insertion sort; the
  descending order is obtained by negating the key.
\<close>

definition most_common :: "('a, nat) dict \<Rightarrow> ('a \<times> nat) list" where
  "most_common c = sort_key (\<lambda>(w, n). - int n) c"

section \<open>Vocabulary builder\<close>

definition build_dataset :: "string list \<Rightarrow> (string, nat) dict \<times> (nat, string) dict" where
  "build_dataset words =
     (let count = most_common (Counter words);
          dictionary = foldl (\<lambda>d (word, _). AList.update word (length d) d) [] count;
          reverse_dictionary = dict_of (zip (map snd dictionary) (map fst dictionary))
      in (dictionary, reverse_dictionary))"

text \<open>The value of \<open>count\<close> at line 42: the counted tokens in ranking order.\<close>

definition ranked :: "string list \<Rightarrow> (string \<times> nat) list" where
  "ranked words = most_common (Counter words)"

text \<open>
  Position of the first occurrence of \<open>w\<close> in \<open>ws\<close> (the length of \<open>ws\<close> when there is
  none): the order in which the tokens are first encountered.
\<close>

definition first_pos :: "'a \<Rightarrow> 'a list \<Rightarrow> nat" where
  "first_pos w ws = length (takeWhile (\<lambda>x. x \<noteq> w) ws)"

section \<open>Reading the corpus\<close>

definition N_INPUT :: nat where
  "N_INPUT = 3"

text \<open>
  \<open>START_TOKEN\<close>, \<open>END_TOKEN\<close> and \<open>UNKNOWN_TOKEN\<close> are imported from a module that is
  not part of the sources at hand, so the functions below take them as parameters.
  \<open>corpus_file\<close> is the list of lines that iterating over the opened file yields: each
  line still carries its newline, except possibly the last one.
\<close>

definition start_tokens :: "string \<Rightarrow> string" where
  "start_tokens START_TOKEN = concat (replicate N_INPUT (START_TOKEN @ '' ''))"

text \<open>
  The loop over the lines of the corpus, on the pair \<open>(punch_lines, sentence_length)\<close>.
  \<open>line[-1]\<close> raises on an empty string.
\<close>

fun read_lines :: "string \<Rightarrow> string \<Rightarrow> string list \<Rightarrow> string \<times> nat \<Rightarrow> error + string \<times> nat" where
  "read_lines START_TOKEN END_TOKEN [] acc = Inr acc"
| "read_lines START_TOKEN END_TOKEN (line # rest) (punch_lines, sentence_length) =
     (if line = [] then Inl IndexError
      else
        let line = (if last line = CHR 0x0A then butlast line else line)
        in if line = [] then read_lines START_TOKEN END_TOKEN rest (punch_lines, sentence_length)
           else read_lines START_TOKEN END_TOKEN rest
                  (punch_lines @ start_tokens START_TOKEN @ line @ '' '' @ END_TOKEN @ '' '',
                   max sentence_length (length line)))"

text \<open>\<open>s.split(' ')\<close>: split at every single space, keeping empty pieces.\<close>

fun split_space :: "string \<Rightarrow> string list" where
  "split_space [] = [[]]"
| "split_space (c # cs) =
     (if c = CHR '' '' then [] # split_space cs
      else (case split_space cs of [] \<Rightarrow> [[c]] | w # ws \<Rightarrow> (c # w) # ws))"

text \<open>Lines 79 to 95 of \<open>run\<close>: the token list and the maximum sentence length.\<close>

definition corpus_words :: "string \<Rightarrow> string \<Rightarrow> string list \<Rightarrow> error + string list \<times> nat" where
  "corpus_words START_TOKEN END_TOKEN corpus_file =
     (case read_lines START_TOKEN END_TOKEN corpus_file ([], 1) of
        Inl e \<Rightarrow> Inl e
      | Inr (punch_lines, sentence_length) \<Rightarrow> Inr (split_space punch_lines, sentence_length))"

text \<open>Lines 79 to 97: corpus reading followed by \<open>build_dataset\<close>.\<close>

definition build_vocabulary ::
  "string \<Rightarrow> string \<Rightarrow> string list \<Rightarrow> error + (string, nat) dict \<times> (nat, string) dict" where
  "build_vocabulary START_TOKEN END_TOKEN corpus_file =
     (case corpus_words START_TOKEN END_TOKEN corpus_file of
        Inl e \<Rightarrow> Inl e
      | Inr (words, sentence_length) \<Rightarrow> Inr (build_dataset words))"

text \<open>Lines 99 and 100: the keys of the end and start markers, \<open>(end_key, start_key)\<close>.\<close>

definition marker_keys :: "string \<Rightarrow> string \<Rightarrow> (string, nat) dict \<Rightarrow> error + nat \<times> nat" where
  "marker_keys START_TOKEN END_TOKEN dictionary =
     (case dict_get dictionary END_TOKEN of
        Inl e \<Rightarrow> Inl e
      | Inr end_key \<Rightarrow>
          (case dict_get dictionary START_TOKEN of
             Inl e \<Rightarrow> Inl e
           | Inr start_key \<Rightarrow> Inr (end_key, start_key)))"

section \<open>Embedding loader\<close>


text \<open>
  The rows of the embedding matrix and, for each row number, the vocabulary index of its
  word: the triple \<open>(embeddings_list, embedding_order, order)\<close> of the second loop.
\<close>

definition embedding_rows ::
  "(string, 'v) dict \<Rightarrow> (string, nat) dict \<Rightarrow> 'v list \<times> (nat, nat) dict \<times> nat" where
  "embedding_rows embeddings_dict dictionary =
     foldl (\<lambda>(embeddings_list, embedding_order, order) (word, embedding).
              (case map_of dictionary word of
                 None \<Rightarrow> (embeddings_list, embedding_order, order)
               | Some index \<Rightarrow>
                   (embeddings_list @ [embedding],
                    AList.update order index embedding_order,
                    order + 1)))
       ([], [], 0) embeddings_dict"

section \<open>Sentence generator\<close>

text \<open>
  The numbers are modelled as reals: the exact arithmetic behind the floating-point
  values.  \<open>np.argmin\<close> and \<open>tf.argmax\<close> return the first position of the extremum and
  fail on an empty vector.
\<close>

definition argmin :: "real list \<Rightarrow> error + nat" where
  "argmin xs = (case xs of [] \<Rightarrow> Inl ValueError | x # r \<Rightarrow> Inr (first_pos (fold min r x) xs))"

definition argmax :: "real list \<Rightarrow> error + nat" where
  "argmax xs = (case xs of [] \<Rightarrow> Inl ValueError | x # r \<Rightarrow> Inr (first_pos (fold max r x) xs))"

definition l2_norm :: "real list \<Rightarrow> real" where
  "l2_norm xs = sqrt (sum_list (map (\<lambda>x. x * x) xs))"

text \<open>
  \<open>embeddings_list - pred_output\<close>: the prediction is subtracted from every row.  The rows
  and the prediction have the same length, the dimension of the embedding.
\<close>

definition subtract_row :: "real list list \<Rightarrow> real list \<Rightarrow> real list list" where
  "subtract_row embeddings_list pred_output =
     map (\<lambda>row. map2 (\<lambda>a b. a - b) row pred_output) embeddings_list"

text \<open>\<open>np.linalg.norm(m, axis=0)\<close>: one norm per column, taken over the rows.\<close>

definition norm_axis0 :: "real list list \<Rightarrow> real list" where
  "norm_axis0 m = map l2_norm (transpose m)"

text \<open>
  The two modes of the script: \<open>embedding_file\<close> unset (classification), or set, and then
  with the matrix \<open>embeddings_list\<close> and the table \<open>embedding_order\<close>.
\<close>

datatype mode = Classification | Embedding "real list list" "(nat, nat) dict"

text \<open>
  Lines 184 to 190.  \<open>net\<close> is the network with its current parameters: the row that
  \<open>sess.run(pred, ...)\<close> returns for one window of \<open>N_INPUT\<close> keys.  A window of another
  length does not survive the reshape and the conversion of the prediction.
\<close>

definition predict_index :: "(nat list \<Rightarrow> real list) \<Rightarrow> mode \<Rightarrow> nat list \<Rightarrow> error + nat" where
  "predict_index net m keys =
     (if length keys \<noteq> N_INPUT then Inl ValueError
      else
        let pred_output = net keys
        in (case m of
              Embedding embeddings_list embedding_order \<Rightarrow>
                (case argmin (norm_axis0 (subtract_row embeddings_list pred_output)) of
                   Inl e \<Rightarrow> Inl e
                 | Inr embedding_index \<Rightarrow> dict_get embedding_order embedding_index)
            | Classification \<Rightarrow> argmax pred_output))"

text \<open>
  Lines 177 to 179.  \<open>randint n\<close> is the value that the \<open>n\<close>-th call of
  \<open>random.randint(0, vocab_size - 1)\<close> returns.  The loop has no bound of its own.
\<close>

partial_function (option) draw_rand_key :: "(nat \<Rightarrow> nat) \<Rightarrow> nat \<Rightarrow> nat \<Rightarrow> nat \<Rightarrow> nat \<Rightarrow> nat option" where
  "draw_rand_key randint start_key end_key n rand_key =
     (if rand_key = start_key \<or> rand_key = end_key
      then draw_rand_key randint start_key end_key (n + 1) (randint n)
      else Some rand_key)"

declare draw_rand_key.simps [code]

text \<open>Lines 176 to 180: the window the decoding starts from.\<close>

definition seed_window :: "(nat \<Rightarrow> nat) \<Rightarrow> nat \<Rightarrow> nat \<Rightarrow> nat list option" where
  "seed_window randint start_key end_key =
     (case draw_rand_key randint start_key end_key 0 start_key of
        None \<Rightarrow> None
      | Some rand_key \<Rightarrow> Some (replicate (N_INPUT - 1) start_key @ [rand_key]))"

text \<open>
  Lines 183 to 193: the loop over \<open>range(sentence_length)\<close>, on \<open>symbols_in_keys\<close>.
  \<open>predict\<close> stands for lines 184 to 190.
\<close>

fun decode :: "(nat list \<Rightarrow> error + nat) \<Rightarrow> nat \<Rightarrow> nat list \<Rightarrow> nat list \<Rightarrow> error + nat list" where
  "decode predict end_key [] symbols_in_keys = Inr symbols_in_keys"
| "decode predict end_key (i # is) symbols_in_keys =
     (case predict (drop i symbols_in_keys) of
        Inl e \<Rightarrow> Inl e
      | Inr pred_index \<Rightarrow>
          if pred_index = end_key then Inr symbols_in_keys
          else decode predict end_key is (symbols_in_keys @ [pred_index]))"

text \<open>
  \<open>generate_sentence\<close> up to line 193: \<open>None\<close> when the choice of the random key never
  ends, otherwise the raised error or the final \<open>symbols_in_keys\<close>.
\<close>

definition generate_sentence ::
  "(nat \<Rightarrow> nat) \<Rightarrow> (nat list \<Rightarrow> error + nat) \<Rightarrow> nat \<Rightarrow> nat \<Rightarrow> nat \<Rightarrow> (error + nat list) option" where
  "generate_sentence randint predict start_key end_key sentence_length =
     (case seed_window randint start_key end_key of
        None \<Rightarrow> None
      | Some symbols_in_keys \<Rightarrow>
          Some (decode predict end_key [0..<sentence_length] symbols_in_keys))"

text \<open>The loop of \<open>convert_indices_to_sentence\<close>, on \<open>sentence\<close>.\<close>

fun append_words :: "(nat, string) dict \<Rightarrow> nat \<Rightarrow> nat list \<Rightarrow> string \<Rightarrow> error + string" where
  "append_words reverse_dictionary start_key [] sentence = Inr sentence"
| "append_words reverse_dictionary start_key (symbol # rest) sentence =
     (if symbol \<noteq> start_key
      then (case dict_get reverse_dictionary symbol of
              Inl e \<Rightarrow> Inl e
            | Inr word \<Rightarrow> append_words reverse_dictionary start_key rest (sentence @ word @ '' ''))
      else append_words reverse_dictionary start_key rest sentence)"

definition convert_indices_to_sentence :: "(nat, string) dict \<Rightarrow> nat \<Rightarrow> nat list \<Rightarrow> error + string" where
  "convert_indices_to_sentence reverse_dictionary start_key symbols_in_keys =
     (case append_words reverse_dictionary start_key symbols_in_keys [] of
        Inl e \<Rightarrow> Inl e
      | Inr sentence \<Rightarrow> Inr (butlast sentence))"

text \<open>
  What the specification asks of the embedding mode, written from its words: the row of
  the embedding matrix nearest to the prediction in Euclidean distance, mapped through
  the row-order table.
\<close>

definition nearest_row_index :: "real list list \<Rightarrow> (nat, nat) dict \<Rightarrow> real list \<Rightarrow> error + nat" where
  "nearest_row_index embeddings_list embedding_order pred_output =
     (case argmin (map l2_norm (subtract_row embeddings_list pred_output)) of
        Inl e \<Rightarrow> Inl e
      | Inr row \<Rightarrow> dict_get embedding_order row)"

section \<open>Training loop\<close>

definition BATCH_SIZE :: nat where
  "BATCH_SIZE = 1000"

definition GENERATE_INCREMENT :: nat where
  "GENERATE_INCREMENT = 10000"

text \<open>
  Numbers are reals.  \<open>min_loss\<close> is a \<open>tf.float32\<close> variable that starts at \<open>float('inf')\<close>
  (or at the value restored from a checkpoint), so its values are the float32 numbers
  and the two infinities.  \<open>min_loss.eval() > current_loss\<close> compares exactly, and
  \<open>bound_le\<close> is the order of these values.  NaN is not modelled.
\<close>

datatype bound = NegInfinity | Finite real | Infinity

fun exceeds :: "bound \<Rightarrow> real \<Rightarrow> bool" where
  "exceeds Infinity c = True"
| "exceeds (Finite m) c = (m > c)"
| "exceeds NegInfinity c = False"

fun bound_le :: "bound \<Rightarrow> bound \<Rightarrow> bool" where
  "bound_le NegInfinity b = True"
| "bound_le (Finite a) NegInfinity = False"
| "bound_le (Finite a) (Finite b) = (a \<le> b)"
| "bound_le (Finite a) Infinity = True"
| "bound_le Infinity NegInfinity = False"
| "bound_le Infinity (Finite b) = False"
| "bound_le Infinity Infinity = True"

text \<open>
  \<open>min_loss.assign(current_loss)\<close> converts its argument to the type of the variable:
  IEEE 754 binary32 with rounding to nearest, ties to even.  Around \<open>x\<close> the float32
  numbers are the multiples of \<open>float32_ulp x\<close>, which is \<open>2\<close> to the power of the binary
  exponent of \<open>x\<close> (at least \<open>-126\<close>, the subnormal range) minus the 23 fraction bits; a
  result of magnitude \<open>2 ^ 128\<close> or more is an infinity.
\<close>

definition round_half_even :: "real \<Rightarrow> int" where
  "round_half_even y =
     (let n = \<lfloor>y\<rfloor>
      in if y - of_int n < 1 / 2 then n
         else if y - of_int n > 1 / 2 then n + 1
         else if even n then n else n + 1)"

definition float32_exponent :: "real \<Rightarrow> int" where
  "float32_exponent x = max \<lfloor>log 2 \<bar>x\<bar>\<rfloor> (- 126)"

definition float32_ulp :: "real \<Rightarrow> real" where
  "float32_ulp x = 2 powr of_int (float32_exponent x - 23)"

definition float32_nearest :: "real \<Rightarrow> real" where
  "float32_nearest x = of_int (round_half_even (x / float32_ulp x)) * float32_ulp x"

definition to_float32 :: "real \<Rightarrow> bound" where
  "to_float32 x =
     (if x = 0 then Finite 0
      else
        let r = float32_nearest x
        in if r \<ge> 2 ^ 128 then Infinity
           else if r \<le> - (2 ^ 128) then NegInfinity
           else Finite r)"

text \<open>
  What a training step does besides updating its counters: \<open>saver.save(sess, path)\<close> and
  the call of \<open>generate_sentence\<close>.  A run of steps stands for an execution in which
  every such call returns.
\<close>

datatype event = Save string | Generate_sentence

text \<open>
  What the loop takes from outside: the two checkpoint paths (\<open>save_model_path\<close> is built
  from the model file name, \<open>final_model_path\<close> from the name \<open>final\<close>; they are the same
  path when the model file is named \<open>final\<close>), and the floating-point addition and
  division that \<open>total_loss += loss\<close> and \<open>total_loss / BATCH_SIZE\<close> perform.
\<close>

record train_env =
  save_model_path :: string
  final_model_path :: string
  float_add :: "real \<Rightarrow> real \<Rightarrow> real"
  float_div :: "real \<Rightarrow> real \<Rightarrow> real"

record train_state =
  batch_counter :: nat
  total_loss :: real
  min_loss :: bound
  events :: "event list"

text \<open>
  Lines 233 to 251, for one example: \<open>loss\<close> is the loss that the optimizer step at
  \<open>offset\<close> returned.  The events of the step are appended to \<open>events\<close>.
\<close>

definition train_step :: "train_env \<Rightarrow> nat \<Rightarrow> real \<Rightarrow> train_state \<Rightarrow> train_state" where
  "train_step env offset loss s =
     (let s = s\<lparr>total_loss := float_add env (total_loss s) loss\<rparr>;
          s = s\<lparr>batch_counter := batch_counter s + 1\<rparr>
      in if batch_counter s \<ge> BATCH_SIZE then
           let s = s\<lparr>batch_counter := 0\<rparr>;
               current_loss = float_div env (total_loss s) (real BATCH_SIZE);
               s = (if exceeds (min_loss s) current_loss
                    then s\<lparr>min_loss := to_float32 current_loss,
                           events := events s @ [Save (save_model_path env), Generate_sentence]\<rparr>
                    else if offset mod GENERATE_INCREMENT = GENERATE_INCREMENT - 1
                    then s\<lparr>events := events s @ [Save (final_model_path env), Generate_sentence]\<rparr>
                    else s)
           in s\<lparr>total_loss := 0\<rparr>
         else s)"

text \<open>
  The state before the first step (lines 153, 218 and 219); \<open>m\<close> is \<open>Infinity\<close>, or the
  value restored from an earlier checkpoint.
\<close>

definition initial_state :: "bound \<Rightarrow> train_state" where
  "initial_state m = \<lparr>batch_counter = 0, total_loss = 0, min_loss = m, events = []\<rparr>"

text \<open>A run of the loop body over a sequence of pairs \<open>(offset, loss)\<close>.\<close>

definition run_steps :: "train_env \<Rightarrow> (nat \<times> real) list \<Rightarrow> train_state \<Rightarrow> train_state" where
  "run_steps env steps s = foldl (\<lambda>s (offset, loss). train_step env offset loss s) s steps"

text \<open>
  The two nested loops of the training, over the epochs and the offsets;
  \<open>loss_at epoch offset\<close> is the loss of the step taken there.
\<close>

definition train_loop ::
  "train_env \<Rightarrow> nat \<Rightarrow> nat \<Rightarrow> (nat \<Rightarrow> nat \<Rightarrow> real) \<Rightarrow> train_state \<Rightarrow> train_state" where
  "train_loop env epochs num_examples loss_at s =
     foldl (\<lambda>s epoch.
              foldl (\<lambda>s offset. train_step env offset (loss_at epoch offset) s) s [0..<num_examples])
       s [0..<epochs]"

text \<open>
  An environment for examples: on the losses used there every sum and quotient is a
  float64 number, so the floating-point operations are the exact ones.
\<close>

definition exact_env :: "string \<Rightarrow> string \<Rightarrow> train_env" where
  "exact_env model_path final_path =
     \<lparr>save_model_path = model_path, final_model_path = final_path,
      float_add = (+), float_div = (/)\<rparr>"

section \<open>Properties of the vocabulary builder\<close>

subsection \<open>Association lists\<close>

lemma update_fresh: "k \<notin> fst ` set al \<Longrightarrow> AList.update k v al = al @ [(k, v)]"
  by (induction al) auto

lemma dict_of_distinct: "distinct (map fst ps) \<Longrightarrow> dict_of ps = ps"
proof (induction ps rule: rev_induct)
  case Nil
  show ?case by (simp add: dict_of_def)
next
  case (snoc p ps)
  then have "dict_of ps = ps" and "fst p \<notin> fst ` set ps" by auto
  then show ?case
    by (cases p) (simp add: dict_of_def update_fresh)
qed

lemma enumerate_words:
  "distinct (map fst cs) \<Longrightarrow>
   foldl (\<lambda>d (word, _). AList.update word (length d) d) [] cs = zip (map fst cs) [0..<length cs]"
proof (induction cs rule: rev_induct)
  case Nil
  show ?case by simp
next
  case (snoc c cs)
  then have IH: "foldl (\<lambda>d (word, _). AList.update word (length d) d) [] cs = zip (map fst cs) [0..<length cs]"
    and fresh: "fst c \<notin> set (map fst cs)" by auto
  have "fst c \<notin> fst ` set (zip (map fst cs) [0..<length cs])"
    using fresh by (auto dest: set_zip_leftD)
  then show ?case
    by (cases c) (simp add: IH update_fresh)
qed

subsection \<open>Counting\<close>

lemma Counter_snoc:
  "Counter (ws @ [w]) =
     AList.update w (case map_of (Counter ws) w of None \<Rightarrow> 1 | Some n \<Rightarrow> n + 1) (Counter ws)"
  by (simp add: Counter_def)

lemma Counter_Nil: "Counter [] = []"
  by (simp add: Counter_def)

lemma Counter_keys: "set (map fst (Counter ws)) = set ws"
  by (induction ws rule: rev_induct) (auto simp: Counter_Nil Counter_snoc update_keys)

lemma Counter_distinct: "distinct (map fst (Counter ws))"
  by (induction ws rule: rev_induct) (auto simp: Counter_Nil Counter_snoc intro: distinct_update)

lemma Counter_lookup:
  "map_of (Counter ws) w = (if w \<in> set ws then Some (count_list ws w) else None)"
proof (induction ws arbitrary: w rule: rev_induct)
  case Nil
  show ?case by (simp add: Counter_Nil)
next
  case (snoc x xs)
  show ?case
    by (simp add: Counter_snoc update_conv' snoc.IH)
qed

lemma first_pos_less: "w \<in> set ws \<Longrightarrow> first_pos w ws < length ws"
  unfolding first_pos_def by (induction ws) auto

lemma first_pos_snoc_old: "w \<in> set ws \<Longrightarrow> first_pos w (ws @ [x]) = first_pos w ws"
  unfolding first_pos_def by (induction ws) auto

lemma first_pos_snoc_new: "w \<notin> set ws \<Longrightarrow> first_pos w (ws @ [w]) = length ws"
  unfolding first_pos_def by (induction ws) auto

lemma Counter_first_seen:
  "sorted_wrt (\<lambda>a b. first_pos a ws < first_pos b ws) (map fst (Counter ws))"
proof (induction ws rule: rev_induct)
  case Nil
  show ?case by (simp add: Counter_Nil)
next
  case (snoc x xs)
  let ?R = "\<lambda>zs a b. first_pos a zs < first_pos b (zs :: 'a list)"
  have old: "sorted_wrt (?R (xs @ [x])) (map fst (Counter xs))"
  proof (rule sorted_wrt_mono_rel[OF _ snoc.IH])
    fix a b assume "a \<in> set (map fst (Counter xs))" "b \<in> set (map fst (Counter xs))" "?R xs a b"
    moreover from this have "a \<in> set xs" "b \<in> set xs"
      by (metis Counter_keys)+
    ultimately show "?R (xs @ [x]) a b" by (simp add: first_pos_snoc_old)
  qed
  show ?case
  proof (cases "x \<in> set xs")
    case True
    then have "x \<in> set (map fst (Counter xs))" by (metis Counter_keys)
    then show ?thesis using old by (simp add: Counter_snoc update_keys)
  next
    case False
    then have new: "x \<notin> set (map fst (Counter xs))" by (metis Counter_keys)
    have "\<forall>a \<in> set (map fst (Counter xs)). ?R (xs @ [x]) a x"
    proof
      fix a assume "a \<in> set (map fst (Counter xs))"
      then have "a \<in> set xs" by (metis Counter_keys)
      then show "?R (xs @ [x]) a x"
        using False by (simp add: first_pos_snoc_old first_pos_snoc_new first_pos_less)
    qed
    then show ?thesis using old new
      by (simp add: Counter_snoc update_keys sorted_wrt_append)
  qed
qed

subsection \<open>Stable sorting\<close>

lemma sorted_wrt_insort_key:
  assumes "sorted (map f ys)" "sorted_wrt R ys"
    and "\<forall>y \<in> set ys. f y < f x \<longrightarrow> R y x"
    and "\<forall>y \<in> set ys. f x \<le> f y \<longrightarrow> R x y"
  shows "sorted_wrt R (insort_key f x ys)"
  using assms
proof (induction ys)
  case Nil
  then show ?case by simp
next
  case (Cons y ys)
  show ?case
  proof (cases "f x \<le> f y")
    case True
    then have "\<forall>z \<in> set (y # ys). f x \<le> f z" using Cons.prems(1) by auto
    then show ?thesis using True Cons.prems by auto
  next
    case False
    then show ?thesis using Cons by (auto simp: set_insort_key)
  qed
qed

lemma sort_key_stable_wrt:
  fixes f :: "'a \<Rightarrow> 'k::linorder" and rank :: "'a \<Rightarrow> nat"
  assumes "sorted_wrt (\<lambda>a b. rank a < rank b) xs"
  shows "sorted_wrt (\<lambda>a b. f a < f b \<or> (f a = f b \<and> rank a < rank b)) (sort_key f xs)"
  using assms
proof (induction xs)
  case Nil
  then show ?case by simp
next
  case (Cons x xs)
  have "sorted_wrt (\<lambda>a b. f a < f b \<or> (f a = f b \<and> rank a < rank b)) (insort_key f x (sort_key f xs))"
  proof (rule sorted_wrt_insort_key)
    show "sorted (map f (sort_key f xs))" by simp
    show "sorted_wrt (\<lambda>a b. f a < f b \<or> (f a = f b \<and> rank a < rank b)) (sort_key f xs)"
      using Cons by simp
    show "\<forall>y\<in>set (sort_key f xs). f y < f x \<longrightarrow> f y < f x \<or> (f y = f x \<and> rank y < rank x)" by simp
    show "\<forall>y\<in>set (sort_key f xs). f x \<le> f y \<longrightarrow> f x < f y \<or> (f x = f y \<and> rank x < rank y)"
      using Cons.prems by auto
  qed
  then show ?case by simp
qed

subsection \<open>The ranked word list\<close>

lemma ranked_set: "set (ranked words) = set (Counter words)"
  by (simp add: ranked_def most_common_def)

lemma ranked_keys: "set (map fst (ranked words)) = set words"
  using Counter_keys[of words] by (simp add: ranked_set)

lemma distinct_map_insort_key:
  "distinct (map g (insort_key f x xs)) = (g x \<notin> g ` set xs \<and> distinct (map g xs))"
  by (induction xs) (auto simp: set_insort_key)

lemma distinct_map_sort_key: "distinct (map g (sort_key f xs)) = distinct (map g xs)"
  by (induction xs) (simp_all add: distinct_map_insort_key)

lemma ranked_distinct: "distinct (map fst (ranked words))"
  unfolding ranked_def most_common_def distinct_map_sort_key by (rule Counter_distinct)

lemma ranked_count: "(w, n) \<in> set (ranked words) \<Longrightarrow> n = count_list words w \<and> w \<in> set words"
proof -
  assume "(w, n) \<in> set (ranked words)"
  then have "(w, n) \<in> set (Counter words)" by (simp add: ranked_set)
  then have "map_of (Counter words) w = Some n"
    using Counter_distinct[of words] by simp
  then show ?thesis by (simp add: Counter_lookup split: if_splits)
qed

lemma ranked_sorted:
  "sorted_wrt (\<lambda>p q. snd p > snd q \<or> (snd p = snd q \<and> first_pos (fst p) words < first_pos (fst q) words))
     (ranked words)"
proof -
  have "sorted_wrt (\<lambda>p q. first_pos (fst p) words < first_pos (fst q) words) (Counter words)"
    using Counter_first_seen[of words] by (simp add: sorted_wrt_map)
  from sort_key_stable_wrt[OF this, of "\<lambda>(w, n). - int n"]
  show ?thesis
    unfolding ranked_def most_common_def
    by (rule sorted_wrt_mono_rel[rotated]) (auto simp: case_prod_beta)
qed

lemma build_dataset_eq:
  "build_dataset words =
     (zip (map fst (ranked words)) [0..<length (ranked words)],
      zip [0..<length (ranked words)] (map fst (ranked words)))"
proof -
  let ?ws = "map fst (ranked words)" and ?n = "length (ranked words)"
  have d: "foldl (\<lambda>d (word, _). AList.update word (length d) d) [] (ranked words) = zip ?ws [0..<?n]"
    by (rule enumerate_words[OF ranked_distinct])
  have "map snd (zip ?ws [0..<?n]) = [0..<?n]" "map fst (zip ?ws [0..<?n]) = ?ws"
    by simp_all
  moreover have "dict_of (zip [0..<?n] ?ws) = zip [0..<?n] ?ws"
    by (rule dict_of_distinct) simp
  ultimately show ?thesis
    unfolding build_dataset_def Let_def ranked_def[symmetric] d by simp
qed


lemma zip_upt_lookup:
  assumes "distinct ws"
  shows "map_of (zip ws [0..<length ws]) w = Some i \<longleftrightarrow> i < length ws \<and> ws ! i = w"
proof -
  have "distinct (map fst (zip ws [0..<length ws]))" using assms by simp
  then have "map_of (zip ws [0..<length ws]) w = Some i \<longleftrightarrow> (w, i) \<in> set (zip ws [0..<length ws])"
    by (rule map_of_eq_Some_iff)
  also have "\<dots> \<longleftrightarrow> i < length ws \<and> ws ! i = w"
    by (auto simp: set_zip)
  finally show ?thesis .
qed

lemma upt_zip_lookup:
  "map_of (zip [0..<length ws] ws) i = Some w \<longleftrightarrow> i < length ws \<and> ws ! i = w"
proof -
  have "distinct (map fst (zip [0..<length ws] ws))" by simp
  then have "map_of (zip [0..<length ws] ws) i = Some w \<longleftrightarrow> (i, w) \<in> set (zip [0..<length ws] ws)"
    by (rule map_of_eq_Some_iff)
  also have "\<dots> \<longleftrightarrow> i < length ws \<and> ws ! i = w"
  proof
    assume "(i, w) \<in> set (zip [0..<length ws] ws)"
    then show "i < length ws \<and> ws ! i = w" by (auto simp: set_zip)
  next
    assume "i < length ws \<and> ws ! i = w"
    then have "(i, w) = ([0..<length ws] ! i, ws ! i) \<and> i < min (length [0..<length ws]) (length ws)"
      by simp
    then show "(i, w) \<in> set (zip [0..<length ws] ws)"
      unfolding set_zip by blast
  qed
  finally show ?thesis .
qed

text \<open>
  Claim C1.  For every token list, \<open>build_dataset\<close> returns two mappings that are inverse
  bijections between the distinct tokens and the indices \<open>0, \<dots>, vocab_size - 1\<close>, where
  \<open>vocab_size\<close> is the length of the dictionary: every distinct token has exactly one
  entry, the indices are pairwise different and fill the range, and the reverse
  dictionary maps an index to a token exactly when the dictionary maps that token to
  that index.
\<close>

theorem build_dataset_bijection:
  assumes "build_dataset words = (dictionary, reverse_dictionary)"
  shows "distinct (map fst dictionary) \<and> fst ` set dictionary = set words
       \<and> distinct (map snd dictionary) \<and> snd ` set dictionary = {0..<length dictionary}
       \<and> distinct (map fst reverse_dictionary)
       \<and> fst ` set reverse_dictionary = {0..<length dictionary}
       \<and> (\<forall>w i. map_of dictionary w = Some i \<longleftrightarrow> map_of reverse_dictionary i = Some w)"
proof -
  let ?ws = "map fst (ranked words)"
  have len: "length (ranked words) = length ?ws" by simp
  have d: "dictionary = zip ?ws [0..<length ?ws]"
    and r: "reverse_dictionary = zip [0..<length ?ws] ?ws"
    using assms unfolding build_dataset_eq len by simp_all
  have dist: "distinct ?ws" by (rule ranked_distinct)
  have keys: "set ?ws = set words" by (rule ranked_keys)
  have 1: "map fst dictionary = ?ws" and 2: "map snd dictionary = [0..<length ?ws]"
    and 3: "map fst reverse_dictionary = [0..<length ?ws]" and 4: "length dictionary = length ?ws"
    unfolding d r by simp_all
  have "fst ` set dictionary = set (map fst dictionary)" "snd ` set dictionary = set (map snd dictionary)"
    "fst ` set reverse_dictionary = set (map fst reverse_dictionary)"
    by simp_all
  moreover have "\<forall>w i. map_of dictionary w = Some i \<longleftrightarrow> map_of reverse_dictionary i = Some w"
    unfolding d r using zip_upt_lookup[OF dist] upt_zip_lookup[of ?ws] by simp
  ultimately show ?thesis
    unfolding 1 2 3 4 using dist keys by simp
qed

theorem build_dataset_bijection_witness:
  "build_dataset [''b'', ''a'', ''a''] = ([(''a'', 0), (''b'', 1)], [(0, ''a''), (1, ''b'')])
   \<and> fst ` set [(''a'', 0::nat), (''b'', 1)] = set [''b'', ''a'', ''a'']
   \<and> snd ` set [(''a'', 0::nat), (''b'', 1)] = {0..<length [(''a'', 0::nat), (''b'', 1)]}
   \<and> (\<forall>w i. map_of [(''a'', 0::nat), (''b'', 1)] w = Some i
          \<longleftrightarrow> map_of [(0::nat, ''a''), (1, ''b'')] i = Some w)"
proof -
  have h: "build_dataset [''b'', ''a'', ''a''] = ([(''a'', 0), (''b'', 1)], [(0, ''a''), (1, ''b'')])"
    by code_simp
  show ?thesis using h build_dataset_bijection [OF h] by blast
qed

text \<open>
  Claim C2.  A token that occurs more often than another one gets the lower index, and of
  two tokens that occur equally often the one encountered first gets the lower index.
  For \<open>[a, a, b]\<close> this puts \<open>a\<close> before \<open>b\<close>.
\<close>

theorem build_dataset_frequency_rank:
  assumes "build_dataset words = (dictionary, reverse_dictionary)"
    and "map_of dictionary a = Some i" and "map_of dictionary b = Some j"
    and "count_list words a > count_list words b
         \<or> (count_list words a = count_list words b \<and> first_pos a words < first_pos b words)"
  shows "i < j"
proof -
  let ?cs = "ranked words"
  let ?ws = "map fst ?cs"
  let ?R = "\<lambda>p q. snd p > snd q \<or> (snd p = snd q \<and> first_pos (fst p) words < first_pos (fst q) words)"
  have len: "length ?cs = length ?ws" by simp
  have d: "dictionary = zip ?ws [0..<length ?ws]"
    using assms(1) unfolding build_dataset_eq len by simp
  have dist: "distinct ?ws" by (rule ranked_distinct)
  from assms(2) have i: "i < length ?cs" "fst (?cs ! i) = a"
    unfolding d zip_upt_lookup[OF dist] by auto
  from assms(3) have j: "j < length ?cs" "fst (?cs ! j) = b"
    unfolding d zip_upt_lookup[OF dist] by auto
  have ci: "snd (?cs ! i) = count_list words a"
    using ranked_count[of a "snd (?cs ! i)" words] i nth_mem[OF i(1)] by (metis prod.collapse)
  have cj: "snd (?cs ! j) = count_list words b"
    using ranked_count[of b "snd (?cs ! j)" words] j nth_mem[OF j(1)] by (metis prod.collapse)
  have ab: "?R (?cs ! i) (?cs ! j)"
    using assms(4) by (simp add: ci cj i j)
  show ?thesis
  proof (rule ccontr)
    assume "\<not> i < j"
    then consider "i = j" | "j < i" by linarith
    then show False
    proof cases
      case 1
      then show ?thesis using ab by auto
    next
      case 2
      from sorted_wrt_nth_less[OF ranked_sorted 2 i(1)]
      have "?R (?cs ! j) (?cs ! i)" .
      then show ?thesis using ab by auto
    qed
  qed
qed

theorem build_dataset_frequency_rank_witness:
  "build_dataset [''a'', ''a'', ''b''] = ([(''a'', 0), (''b'', 1)], [(0, ''a''), (1, ''b'')])
   \<and> map_of [(''a'', 0::nat), (''b'', 1)] ''a'' = Some 0
   \<and> map_of [(''a'', 0::nat), (''b'', 1)] ''b'' = Some 1
   \<and> count_list [''a'', ''a'', ''b''] ''a'' > count_list [''a'', ''a'', ''b''] ''b''
   \<and> (0::nat) < 1"
proof -
  have h: "build_dataset [''a'', ''a'', ''b''] = ([(''a'', 0), (''b'', 1)], [(0, ''a''), (1, ''b'')])"
    by code_simp
  have a: "map_of [(''a'', 0::nat), (''b'', 1)] ''a'' = Some 0"
    and b: "map_of [(''a'', 0::nat), (''b'', 1)] ''b'' = Some 1"
    by simp_all
  have c: "count_list [''a'', ''a'', ''b''] ''a'' > count_list [''a'', ''a'', ''b''] ''b''"
    by simp
  show ?thesis
    using h a b c build_dataset_frequency_rank [OF h a b disjI1 [OF c]] by blast
qed

section \<open>Properties of the embedding loader\<close>

lemma dictionary_indices:
  assumes "build_dataset words = (dictionary, reverse_dictionary)"
  shows "distinct (map fst dictionary)" and "distinct (map snd dictionary)"
    and "snd ` set dictionary = {0..<length dictionary}"
    and "fst ` set dictionary = set words"
proof -
  let ?ws = "map fst (ranked words)"
  have len: "length (ranked words) = length ?ws" by simp
  have d: "dictionary = zip ?ws [0..<length ?ws]"
    using assms unfolding build_dataset_eq len by simp
  have 1: "map fst dictionary = ?ws" and 2: "map snd dictionary = [0..<length ?ws]"
    and 4: "length dictionary = length ?ws"
    unfolding d by simp_all
  show "distinct (map fst dictionary)" unfolding 1 by (rule ranked_distinct)
  show "distinct (map snd dictionary)" unfolding 2 by simp
  have "snd ` set dictionary = set (map snd dictionary)" by simp
  then show "snd ` set dictionary = {0..<length dictionary}" unfolding 2 4 by simp
  have "fst ` set dictionary = set (map fst dictionary)" by simp
  then show "fst ` set dictionary = set words" unfolding 1 using ranked_keys[of words] by simp
qed





section \<open>Properties of the training loop\<close>

lemma bound_le_refl: "bound_le m m"
  by (cases m) simp_all

lemma bound_le_Infinity: "bound_le m Infinity"
  by (cases m) simp_all

lemma exceeds_iff: "exceeds m c \<longleftrightarrow> \<not> bound_le m (Finite c)"
  by (cases m) auto

lemma run_steps_snoc:
  "run_steps env (steps @ [(offset, loss)]) s = train_step env offset loss (run_steps env steps s)"
  by (simp add: run_steps_def)

lemma run_steps_append:
  "run_steps env (xs @ ys) s = run_steps env ys (run_steps env xs s)"
  by (simp add: run_steps_def)

lemma train_step_inside:
  assumes "batch_counter s + 1 < BATCH_SIZE"
  shows "train_step env offset loss s =
           s\<lparr>total_loss := float_add env (total_loss s) loss, batch_counter := batch_counter s + 1\<rparr>"
  using assms by (simp add: train_step_def Let_def)

lemma train_step_boundary:
  assumes "batch_counter s + 1 \<ge> BATCH_SIZE"
  shows "train_step env offset loss s =
     (let current_loss = float_div env (float_add env (total_loss s) loss) (real BATCH_SIZE)
      in if exceeds (min_loss s) current_loss
         then s\<lparr>total_loss := 0, batch_counter := 0,
                min_loss := to_float32 current_loss,
                events := events s @ [Save (save_model_path env), Generate_sentence]\<rparr>
         else if offset mod GENERATE_INCREMENT = GENERATE_INCREMENT - 1
         then s\<lparr>total_loss := 0, batch_counter := 0,
                events := events s @ [Save (final_model_path env), Generate_sentence]\<rparr>
         else s\<lparr>total_loss := 0, batch_counter := 0\<rparr>)"
  using assms by (simp add: train_step_def Let_def)

text \<open>The counters after any number of steps from the initial state.\<close>

lemma run_steps_counters:
  "batch_counter (run_steps env steps (initial_state m)) = length steps mod BATCH_SIZE
   \<and> total_loss (run_steps env steps (initial_state m))
       = foldl (float_add env) 0 (map snd (drop (length steps - length steps mod BATCH_SIZE) steps))"
proof (induction steps rule: rev_induct)
  case Nil
  show ?case by (simp add: run_steps_def initial_state_def)
next
  case (snoc p steps)
  obtain offset loss where p: "p = (offset, loss)" by (cases p)
  let ?s = "run_steps env steps (initial_state m)"
  let ?n = "length steps"
  have B: "BATCH_SIZE > 0" by (simp add: BATCH_SIZE_def)
  have bc: "batch_counter ?s = ?n mod BATCH_SIZE"
    and tl: "total_loss ?s = foldl (float_add env) 0 (map snd (drop (?n - ?n mod BATCH_SIZE) steps))"
    using snoc.IH by simp_all
  have lt: "?n mod BATCH_SIZE < BATCH_SIZE" using B by simp
  show ?case
  proof (cases "batch_counter ?s + 1 \<ge> BATCH_SIZE")
    case True
    then have "Suc (?n mod BATCH_SIZE) = BATCH_SIZE" using bc lt by linarith
    then have z: "Suc ?n mod BATCH_SIZE = 0" by (metis mod_Suc)
    have bc': "batch_counter (train_step env offset loss ?s) = 0"
      and tl': "total_loss (train_step env offset loss ?s) = 0"
      unfolding train_step_boundary[OF True] by (simp_all add: Let_def)
    show ?thesis
      unfolding p run_steps_snoc by (simp add: bc' tl' z)
  next
    case False
    then have ins: "batch_counter ?s + 1 < BATCH_SIZE" by simp
    then have "Suc (?n mod BATCH_SIZE) \<noteq> BATCH_SIZE" using bc by simp
    then have m: "Suc ?n mod BATCH_SIZE = Suc (?n mod BATCH_SIZE)" by (metis mod_Suc)
    have le: "?n mod BATCH_SIZE \<le> ?n" by simp
    have "Suc ?n - Suc (?n mod BATCH_SIZE) = ?n - ?n mod BATCH_SIZE" by simp
    then show ?thesis
      unfolding p run_steps_snoc train_step_inside[OF ins] by (simp add: bc tl m le)
  qed
qed

text \<open>The step after \<open>steps\<close>: when it is a batch boundary, and what the mean is there.\<close>

lemma run_steps_boundary:
  assumes "s = run_steps env steps (initial_state m)"
  shows "batch_counter s + 1 \<ge> BATCH_SIZE \<longleftrightarrow> (length steps + 1) mod BATCH_SIZE = 0"
    and "batch_counter s + 1 \<ge> BATCH_SIZE \<Longrightarrow>
         float_add env (total_loss s) loss
           = foldl (float_add env) 0 (drop (length steps + 1 - BATCH_SIZE) (map snd steps @ [loss]))"
proof -
  let ?n = "length steps"
  have B: "BATCH_SIZE > 0" by (simp add: BATCH_SIZE_def)
  have bc: "batch_counter s = ?n mod BATCH_SIZE"
    and tl: "total_loss s = foldl (float_add env) 0 (map snd (drop (?n - ?n mod BATCH_SIZE) steps))"
    using run_steps_counters[of env steps m] assms by simp_all
  have lt: "?n mod BATCH_SIZE < BATCH_SIZE" using B by simp
  show iff: "batch_counter s + 1 \<ge> BATCH_SIZE \<longleftrightarrow> (?n + 1) mod BATCH_SIZE = 0"
  proof
    assume "batch_counter s + 1 \<ge> BATCH_SIZE"
    then have "Suc (?n mod BATCH_SIZE) = BATCH_SIZE" using bc lt by linarith
    then show "(?n + 1) mod BATCH_SIZE = 0" by (metis Suc_eq_plus1 mod_Suc)
  next
    assume "(?n + 1) mod BATCH_SIZE = 0"
    then have "Suc (?n mod BATCH_SIZE) = BATCH_SIZE"
      by (metis Suc_eq_plus1 mod_Suc nat.distinct(1))
    then show "batch_counter s + 1 \<ge> BATCH_SIZE" using bc by simp
  qed
  assume "batch_counter s + 1 \<ge> BATCH_SIZE"
  then have e: "Suc (?n mod BATCH_SIZE) = BATCH_SIZE" using bc lt by linarith
  have le: "?n mod BATCH_SIZE \<le> ?n" by simp
  have "?n + 1 - BATCH_SIZE = ?n - ?n mod BATCH_SIZE" using e le by linarith
  moreover have "?n - ?n mod BATCH_SIZE \<le> length (map snd steps)" by simp
  ultimately show "float_add env (total_loss s) loss
           = foldl (float_add env) 0 (drop (?n + 1 - BATCH_SIZE) (map snd steps @ [loss]))"
    by (simp add: tl drop_map)
qed

text \<open>\<open>min_loss\<close> is the initial value or a value that the conversion returned.\<close>

lemma run_steps_min_loss:
  "min_loss (run_steps env steps (initial_state m)) = m
   \<or> (\<exists>z. min_loss (run_steps env steps (initial_state m)) = to_float32 z)"
proof (induction steps rule: rev_induct)
  case Nil
  show ?case by (simp add: run_steps_def initial_state_def)
next
  case (snoc p steps)
  obtain offset loss where p: "p = (offset, loss)" by (cases p)
  let ?s = "run_steps env steps (initial_state m)"
  show ?case
  proof (cases "batch_counter ?s + 1 \<ge> BATCH_SIZE")
    case True
    show ?thesis
      unfolding p run_steps_snoc train_step_boundary[OF True]
      using snoc.IH by (auto simp: Let_def)
  next
    case False
    then have ins: "batch_counter ?s + 1 < BATCH_SIZE" by simp
    show ?thesis
      unfolding p run_steps_snoc train_step_inside[OF ins]
      using snoc.IH by simp
  qed
qed

lemma round_half_even_bounds: "\<lfloor>y\<rfloor> \<le> round_half_even y \<and> round_half_even y \<le> \<lceil>y\<rceil>"
proof -
  have up: "\<lfloor>y\<rfloor> + 1 \<le> \<lceil>y\<rceil>" if "y - of_int \<lfloor>y\<rfloor> \<ge> 1 / 2"
  proof -
    from that have "of_int \<lfloor>y\<rfloor> < y" by simp
    then have "\<lfloor>y\<rfloor> < \<lceil>y\<rceil>" by (simp add: less_ceiling_iff)
    then show ?thesis by simp
  qed
  have fl: "\<lfloor>y\<rfloor> \<le> \<lceil>y\<rceil>" by (rule floor_le_ceiling)
  show ?thesis
  proof (cases "y - of_int \<lfloor>y\<rfloor> < 1 / 2")
    case True
    then show ?thesis using fl by (simp add: round_half_even_def Let_def)
  next
    case False
    then have "\<lfloor>y\<rfloor> + 1 \<le> \<lceil>y\<rceil>" using up by simp
    then show ?thesis using False fl by (simp add: round_half_even_def Let_def)
  qed
qed

lemma round_half_even_le: "y \<le> of_int j \<Longrightarrow> round_half_even y \<le> j"
proof -
  assume "y \<le> of_int j"
  then have "\<lceil>y\<rceil> \<le> j" by (simp add: ceiling_le_iff)
  then show ?thesis using round_half_even_bounds[of y] by linarith
qed

lemma round_half_even_ge: "of_int j \<le> y \<Longrightarrow> j \<le> round_half_even y"
proof -
  assume "of_int j \<le> y"
  then have "j \<le> \<lfloor>y\<rfloor>" by (simp add: le_floor_iff)
  then show ?thesis using round_half_even_bounds[of y] by linarith
qed

lemma grid_round_le:
  assumes "q > 0" and "x \<le> of_int j * q"
  shows "of_int (round_half_even (x / q)) * q \<le> of_int j * q"
proof -
  have "x / q \<le> of_int j" using assms by (simp add: pos_divide_le_eq)
  then have "round_half_even (x / q) \<le> j" by (rule round_half_even_le)
  then show ?thesis using assms(1) by simp
qed

lemma grid_round_ge:
  assumes "q > 0" and "of_int j * q \<le> x"
  shows "of_int j * q \<le> of_int (round_half_even (x / q)) * q"
proof -
  have "of_int j \<le> x / q" using assms by (simp add: pos_le_divide_eq)
  then have "j \<le> round_half_even (x / q)" by (rule round_half_even_ge)
  then show ?thesis using assms(1) by simp
qed

lemma powr_int_ratio:
  assumes "(a::int) \<le> b"
  shows "(2::real) powr (of_int b) = of_int (2 ^ nat (b - a)) * 2 powr (of_int a)"
proof -
  have "(2::real) powr (of_int b) = 2 powr (of_int (b - a) + of_int a)"
    by simp
  also have "\<dots> = 2 powr (of_int (b - a)) * 2 powr (of_int a)"
    by (rule powr_add)
  also have "2 powr (of_int (b - a)) = (2::real) ^ nat (b - a)"
    using assms powr_real_of_int[of 2 "b - a"] by simp
  finally show ?thesis by simp
qed

lemma float32_ulp_pos: "float32_ulp x > 0"
  by (simp add: float32_ulp_def)

lemma binade:
  assumes "x \<noteq> 0"
  shows "2 powr of_int \<lfloor>log 2 \<bar>x\<bar>\<rfloor> \<le> \<bar>x\<bar>" and "\<bar>x\<bar> < 2 powr (of_int \<lfloor>log 2 \<bar>x\<bar>\<rfloor> + 1)"
  using assms floor_log_eq_powr_iff[of "\<bar>x\<bar>" 2 "\<lfloor>log 2 \<bar>x\<bar>\<rfloor>"] by simp_all

lemma float32_nearest_grid_le:
  assumes "x \<le> of_int j * float32_ulp x"
  shows "float32_nearest x \<le> of_int j * float32_ulp x"
  unfolding float32_nearest_def by (rule grid_round_le[OF float32_ulp_pos assms])

lemma float32_nearest_grid_ge:
  assumes "of_int j * float32_ulp x \<le> x"
  shows "of_int j * float32_ulp x \<le> float32_nearest x"
  unfolding float32_nearest_def by (rule grid_round_ge[OF float32_ulp_pos assms])

lemma float32_nearest_no_overshoot:
  assumes "x < float32_nearest z" and "x \<noteq> 0" and "z \<noteq> 0"
  shows "float32_nearest x \<le> float32_nearest z"
proof (cases "float32_exponent x \<le> float32_exponent z")
  case True
  then have "float32_exponent x - 23 \<le> float32_exponent z - 23" by simp
  from powr_int_ratio[OF this]
  have q: "float32_ulp z
             = of_int (2 ^ nat (float32_exponent z - 23 - (float32_exponent x - 23))) * float32_ulp x"
    unfolding float32_ulp_def .
  define j where "j = round_half_even (z / float32_ulp z)
                        * 2 ^ nat (float32_exponent z - 23 - (float32_exponent x - 23))"
  have "float32_nearest z = of_int (round_half_even (z / float32_ulp z)) * float32_ulp z"
    by (simp add: float32_nearest_def)
  also have "\<dots> = of_int j * float32_ulp x"
    by (subst q) (simp add: j_def)
  finally have y: "float32_nearest z = of_int j * float32_ulp x" .
  have "x \<le> of_int j * float32_ulp x" using assms(1) y by simp
  from float32_nearest_grid_le[OF this] show ?thesis using y by simp
next
  case False
  then have ez: "float32_exponent z + 1 \<le> float32_exponent x" by simp
  have "- 126 \<le> float32_exponent z" by (simp add: float32_exponent_def)
  then have gt: "- 126 < float32_exponent x" using ez by linarith
  have "float32_exponent x = max \<lfloor>log 2 \<bar>x\<bar>\<rfloor> (- 126)" by (rule float32_exponent_def)
  with gt have ex: "float32_exponent x = \<lfloor>log 2 \<bar>x\<bar>\<rfloor>" by linarith
  define G :: real where "G = 2 powr of_int (float32_exponent x)"
  have xG: "G \<le> \<bar>x\<bar>"
    unfolding G_def ex by (rule binade(1)[OF assms(2)])
  have "\<bar>z\<bar> < 2 powr (of_int \<lfloor>log 2 \<bar>z\<bar>\<rfloor> + 1)"
    by (rule binade(2)[OF assms(3)])
  also have "\<dots> \<le> G"
  proof -
    have "\<lfloor>log 2 \<bar>z\<bar>\<rfloor> \<le> float32_exponent z" by (simp add: float32_exponent_def)
    then have "\<lfloor>log 2 \<bar>z\<bar>\<rfloor> + 1 \<le> float32_exponent x" using ez by simp
    then have "(of_int \<lfloor>log 2 \<bar>z\<bar>\<rfloor> + 1 :: real) \<le> of_int (float32_exponent x)"
      by (metis of_int_1 of_int_add of_int_le_iff)
    then show ?thesis unfolding G_def by (simp add: powr_mono)
  qed
  finally have zG: "\<bar>z\<bar> < G" .
  have "float32_exponent z - 23 \<le> float32_exponent x" using ez by simp
  from powr_int_ratio[OF this]
  have Gz: "G = of_int (2 ^ nat (float32_exponent x - (float32_exponent z - 23))) * float32_ulp z"
    unfolding G_def float32_ulp_def .
  have "float32_exponent x - 23 \<le> float32_exponent x" by simp
  from powr_int_ratio[OF this]
  have Gx: "G = of_int (2 ^ nat (float32_exponent x - (float32_exponent x - 23))) * float32_ulp x"
    unfolding G_def float32_ulp_def .
  have up: "float32_nearest z \<le> G"
  proof -
    have "z \<le> of_int (2 ^ nat (float32_exponent x - (float32_exponent z - 23))) * float32_ulp z"
      using zG Gz by linarith
    from float32_nearest_grid_le[OF this] show ?thesis using Gz by simp
  qed
  have lo: "- G \<le> float32_nearest z"
  proof -
    have "of_int (- (2 ^ nat (float32_exponent x - (float32_exponent z - 23)))) * float32_ulp z \<le> z"
      using zG Gz by (simp add: abs_less_iff)
    from float32_nearest_grid_ge[OF this] show ?thesis using Gz by simp
  qed
  have "x < G" using assms(1) up by simp
  then have "x < 0" using xG by linarith
  then have "x \<le> - G" using xG by simp
  then have "x \<le> of_int (- (2 ^ nat (float32_exponent x - (float32_exponent x - 23)))) * float32_ulp x"
    using Gx by simp
  from float32_nearest_grid_le[OF this] have "float32_nearest x \<le> - G" using Gx by simp
  then show ?thesis using lo by simp
qed

lemma to_float32_no_overshoot:
  assumes "to_float32 z = Finite y" and "x < y"
  shows "bound_le (to_float32 x) (Finite y)"
proof (cases "x = 0")
  case True
  then show ?thesis using assms(2) by (simp add: to_float32_def)
next
  case x: False
  have y128: "y < 2 ^ 128"
    using assms(1) by (auto simp: to_float32_def Let_def split: if_splits)
  have "float32_nearest x \<le> y"
  proof (cases "z = 0")
    case True
    then have "y = 0" using assms(1) by (simp add: to_float32_def)
    then have "x \<le> of_int 0 * float32_ulp x" using assms(2) by simp
    from float32_nearest_grid_le[OF this] show ?thesis using \<open>y = 0\<close> by simp
  next
    case False
    then have "y = float32_nearest z"
      using assms(1) by (auto simp: to_float32_def Let_def split: if_splits)
    then show ?thesis
      using float32_nearest_no_overshoot[OF _ x False] assms(2) by simp
  qed
  then show ?thesis
    using x y128 by (simp add: to_float32_def Let_def)
qed

lemma train_loop_run_steps:
  "train_loop env epochs num_examples loss_at s =
     run_steps env
       (concat (map (\<lambda>epoch. map (\<lambda>offset. (offset, loss_at epoch offset)) [0..<num_examples])
                  [0..<epochs])) s"
proof -
  have inner: "foldl (\<lambda>s offset. train_step env offset (f offset) s) s xs
                 = foldl (\<lambda>s (offset, loss). train_step env offset loss s) s
                     (map (\<lambda>offset. (offset, f offset)) xs)"
    for f s and xs :: "nat list"
    by (induction xs arbitrary: s) simp_all
  have outer: "foldl (\<lambda>s epoch. foldl (\<lambda>s (offset, loss). train_step env offset loss s) s (g epoch)) s es
                 = foldl (\<lambda>s (offset, loss). train_step env offset loss s) s (concat (map g es))"
    for g s and es :: "nat list"
    by (induction es arbitrary: s) simp_all
  show ?thesis
    unfolding train_loop_def run_steps_def inner outer ..
qed

text \<open>Evaluating the conversion, given the binade of the argument.\<close>

lemma float32_ulp_binade:
  assumes "2 powr of_int e \<le> \<bar>x\<bar>" and "\<bar>x\<bar> < 2 powr (of_int e + 1)" and "- 126 \<le> e"
  shows "float32_ulp x = 2 powr of_int (e - 23)"
proof -
  have "0 < \<bar>x\<bar>" using assms(1) by (smt (verit) powr_gt_zero)
  then have "\<lfloor>log 2 \<bar>x\<bar>\<rfloor> = e"
    using assms(1,2) floor_log_eq_powr_iff[of "\<bar>x\<bar>" 2 e] by simp
  then show ?thesis using assms(3) by (simp add: float32_ulp_def float32_exponent_def)
qed

lemma to_float32_one: "to_float32 1 = Finite 1"
proof -
  have "float32_ulp 1 = 2 powr of_int (0 - 23)"
    by (rule float32_ulp_binade) simp_all
  then have u: "float32_ulp 1 = 1 / 2 ^ 23" by (simp add: powr_neg_numeral)
  have "round_half_even (2 ^ 23) = 2 ^ 23"
    by (simp add: round_half_even_def)
  then have "float32_nearest 1 = 1"
    by (simp add: float32_nearest_def u)
  then show ?thesis by (simp add: to_float32_def)
qed

lemma to_float32_half: "to_float32 (1 / 2) = Finite (1 / 2)"
proof -
  have "float32_ulp (1 / 2) = 2 powr of_int (- 1 - 23)"
    by (rule float32_ulp_binade) (simp_all add: powr_neg_numeral powr_minus)
  then have u: "float32_ulp (1 / 2) = 1 / 2 ^ 24" by (simp add: powr_neg_numeral)
  have "round_half_even (2 ^ 23) = 2 ^ 23"
    by (simp add: round_half_even_def)
  then have "float32_nearest (1 / 2) = 1 / 2"
    by (simp add: float32_nearest_def u)
  then show ?thesis by (simp add: to_float32_def)
qed

lemma to_float32_below_half: "to_float32 (1 / 2 - 1 / 2 ^ 28) = Finite (1 / 2)"
proof -
  have "float32_ulp (1 / 2 - 1 / 2 ^ 28) = 2 powr of_int (- 2 - 23)"
    by (rule float32_ulp_binade) (simp_all add: powr_neg_numeral powr_minus)
  then have u: "float32_ulp (1 / 2 - 1 / 2 ^ 28) = 1 / 2 ^ 25" by (simp add: powr_neg_numeral)
  have v: "(1 / 2 - 1 / 2 ^ 28) / (1 / 2 ^ 25) = (2 ^ 24 - 1 / 8 :: real)"
    by simp
  have f: "\<lfloor>2 ^ 24 - 1 / 8 :: real\<rfloor> = 2 ^ 24 - 1"
    by (simp add: floor_eq_iff)
  have "round_half_even (2 ^ 24 - 1 / 8) = 2 ^ 24"
    unfolding round_half_even_def f Let_def by simp
  then have "float32_nearest (1 / 2 - 1 / 2 ^ 28) = 1 / 2"
    unfolding float32_nearest_def u v by simp
  then show ?thesis by (simp add: to_float32_def)
qed

text \<open>A whole batch, from a state at the start of a batch.\<close>

lemma run_steps_inside_batch:
  assumes "batch_counter s = 0" and "total_loss s = 0" and "length steps < BATCH_SIZE"
  shows "run_steps env steps s =
           s\<lparr>total_loss := foldl (float_add env) 0 (map snd steps), batch_counter := length steps\<rparr>"
  using assms(3)
proof (induction steps rule: rev_induct)
  case Nil
  show ?case using assms(1,2) by (simp add: run_steps_def)
next
  case (snoc p steps)
  obtain offset loss where p: "p = (offset, loss)" by (cases p)
  have IH: "run_steps env steps s =
           s\<lparr>total_loss := foldl (float_add env) 0 (map snd steps), batch_counter := length steps\<rparr>"
    using snoc by simp
  have "batch_counter (run_steps env steps s) + 1 < BATCH_SIZE"
    using snoc.prems by (simp add: IH)
  from train_step_inside[OF this] show ?case
    unfolding p run_steps_snoc by (simp add: IH)
qed

lemma run_steps_batch:
  assumes "batch_counter s = 0" and "total_loss s = 0" and "length steps + 1 = BATCH_SIZE"
  shows "run_steps env (steps @ [(offset, loss)]) s =
     (let current_loss =
            float_div env (foldl (float_add env) 0 (map snd steps @ [loss])) (real BATCH_SIZE)
      in if exceeds (min_loss s) current_loss
         then s\<lparr>min_loss := to_float32 current_loss,
                events := events s @ [Save (save_model_path env), Generate_sentence]\<rparr>
         else if offset mod GENERATE_INCREMENT = GENERATE_INCREMENT - 1
         then s\<lparr>events := events s @ [Save (final_model_path env), Generate_sentence]\<rparr>
         else s)"
proof -
  have lt: "length steps < BATCH_SIZE" using assms(3) by simp
  let ?t = "run_steps env steps s"
  have t: "?t = s\<lparr>total_loss := foldl (float_add env) 0 (map snd steps), batch_counter := length steps\<rparr>"
    by (rule run_steps_inside_batch[OF assms(1,2) lt])
  have b: "batch_counter ?t + 1 \<ge> BATCH_SIZE" using assms(3) by (simp add: t)
  have z: "s\<lparr>total_loss := 0, batch_counter := 0\<rparr> = s"
    using assms(1,2) by (cases s) simp
  show ?thesis
    unfolding run_steps_snoc train_step_boundary[OF b]
    using z by (simp add: t Let_def)
qed

lemma foldl_add_replicate: "foldl (+) a (replicate n c) = a + of_nat n * (c::real)"
  by (induction n arbitrary: a) (simp_all add: algebra_simps)

lemma constant_steps_snoc:
  "map (\<lambda>offset. (offset, c)) [a..<a + Suc n] = map (\<lambda>offset. (offset, c)) [a..<a + n] @ [(a + n, c)]"
  by simp

lemma constant_steps_losses:
  "map snd (map (\<lambda>offset. (offset, c)) [a..<a + n]) = replicate n c"
  by (simp add: map_replicate_const comp_def)

lemma exact_env_fields:
  "float_add (exact_env p q) = (+)" "float_div (exact_env p q) = (/)"
  "save_model_path (exact_env p q) = p" "final_model_path (exact_env p q) = q"
  by (simp_all add: exact_env_def)

text \<open>A fresh run with the constant loss 1: the state after \<open>k\<close> batches, for \<open>k\<close> from 1 to 9.\<close>

lemma constant_run:
  assumes "1 \<le> k" and "k \<le> 9"
  shows "run_steps (exact_env p q) (map (\<lambda>offset. (offset, 1)) [0..<1000 * k]) (initial_state Infinity)
           = \<lparr>batch_counter = 0, total_loss = 0, min_loss = Finite 1,
              events = [Save p, Generate_sentence]\<rparr>"
  using assms
proof (induction k rule: nat_induct_at_least)
  case base
  have steps: "map (\<lambda>offset. (offset, 1::real)) [0..<1000 * 1]
                 = map (\<lambda>offset. (offset, 1)) [0..<0 + 999] @ [(0 + 999, 1)]"
    using constant_steps_snoc[of "1::real" 0 999] by simp
  have sum: "foldl (+) 0 (map snd (map (\<lambda>offset. (offset, 1::real)) [0..<0 + 999]) @ [1]) = 1000"
    unfolding constant_steps_losses by (simp add: foldl_add_replicate)
  let ?st = "map (\<lambda>offset. (offset, 1::real)) [0..<0 + 999]"
  have cur: "float_div (exact_env p q) (foldl (float_add (exact_env p q)) 0 (map snd ?st @ [1]))
               (real BATCH_SIZE) = 1"
    unfolding exact_env_fields sum by (simp add: BATCH_SIZE_def)
  have b: "run_steps (exact_env p q) (?st @ [(0 + 999, 1)]) (initial_state Infinity) =
     (let current_loss =
            float_div (exact_env p q) (foldl (float_add (exact_env p q)) 0 (map snd ?st @ [1]))
              (real BATCH_SIZE)
      in if exceeds (min_loss (initial_state Infinity)) current_loss
         then (initial_state Infinity)\<lparr>min_loss := to_float32 current_loss,
                events := events (initial_state Infinity)
                          @ [Save (save_model_path (exact_env p q)), Generate_sentence]\<rparr>
         else if (0 + 999) mod GENERATE_INCREMENT = GENERATE_INCREMENT - 1
         then (initial_state Infinity)\<lparr>events := events (initial_state Infinity)
                          @ [Save (final_model_path (exact_env p q)), Generate_sentence]\<rparr>
         else initial_state Infinity)"
    by (rule run_steps_batch) (simp_all add: initial_state_def BATCH_SIZE_def)
  have "run_steps (exact_env p q) (?st @ [(0 + 999, 1)]) (initial_state Infinity)
        = \<lparr>batch_counter = 0, total_loss = 0, min_loss = Finite 1,
              events = [Save p, Generate_sentence]\<rparr>"
    unfolding b Let_def cur
    by (simp add: initial_state_def to_float32_one exact_env_fields)
  then show ?case unfolding steps .
next
  case (Suc k)
  then have k: "1 \<le> k" "k \<le> 8" by simp_all
  let ?s = "\<lparr>batch_counter = 0, total_loss = 0, min_loss = Finite 1,
              events = [Save p, Generate_sentence]\<rparr>"
  have IH: "run_steps (exact_env p q) (map (\<lambda>offset. (offset, 1)) [0..<1000 * k]) (initial_state Infinity) = ?s"
    using Suc.IH k by simp
  have "1000 * Suc k = 1000 * k + 1000" by simp
  then have "[0..<1000 * Suc k] = [0..<1000 * k] @ [1000 * k..<1000 * k + 1000]"
    using upt_add_eq_append[of 0 "1000 * k" 1000] by (simp only: le0)
  then have steps: "map (\<lambda>offset. (offset, 1::real)) [0..<1000 * Suc k]
      = map (\<lambda>offset. (offset, 1)) [0..<1000 * k]
        @ (map (\<lambda>offset. (offset, 1)) [1000 * k..<1000 * k + 999] @ [(1000 * k + 999, 1)])"
    using constant_steps_snoc[of "1::real" "1000 * k" 999] by simp
  have sum: "foldl (+) 0 (map snd (map (\<lambda>offset. (offset, 1::real)) [1000 * k..<1000 * k + 999]) @ [1]) = 1000"
    unfolding constant_steps_losses by (simp add: foldl_add_replicate)
  have off: "(1000 * k + 999) mod GENERATE_INCREMENT \<noteq> GENERATE_INCREMENT - 1"
    using k by (simp add: GENERATE_INCREMENT_def)
  let ?st = "map (\<lambda>offset. (offset, 1::real)) [1000 * k..<1000 * k + 999]"
  have cur: "float_div (exact_env p q) (foldl (float_add (exact_env p q)) 0 (map snd ?st @ [1]))
               (real BATCH_SIZE) = 1"
    unfolding exact_env_fields sum by (simp add: BATCH_SIZE_def)
  have b: "run_steps (exact_env p q) (?st @ [(1000 * k + 999, 1)]) ?s =
     (let current_loss =
            float_div (exact_env p q) (foldl (float_add (exact_env p q)) 0 (map snd ?st @ [1]))
              (real BATCH_SIZE)
      in if exceeds (min_loss ?s) current_loss
         then ?s\<lparr>min_loss := to_float32 current_loss,
                events := events ?s @ [Save (save_model_path (exact_env p q)), Generate_sentence]\<rparr>
         else if (1000 * k + 999) mod GENERATE_INCREMENT = GENERATE_INCREMENT - 1
         then ?s\<lparr>events := events ?s @ [Save (final_model_path (exact_env p q)), Generate_sentence]\<rparr>
         else ?s)"
    by (rule run_steps_batch) (simp_all add: BATCH_SIZE_def)
  have "run_steps (exact_env p q) (?st @ [(1000 * k + 999, 1)]) ?s = ?s"
    unfolding b Let_def cur using off by simp
  then show ?case
    unfolding steps run_steps_append IH .
qed

lemma constant_run_inside:
  "run_steps (exact_env p q) (map (\<lambda>offset. (offset, 1)) [0..<9999]) (initial_state Infinity)
     = \<lparr>batch_counter = 999, total_loss = 999, min_loss = Finite 1,
        events = [Save p, Generate_sentence]\<rparr>"
proof -
  let ?s = "\<lparr>batch_counter = 0, total_loss = 0, min_loss = Finite 1,
              events = [Save p, Generate_sentence]\<rparr>"
  let ?st = "map (\<lambda>offset. (offset, 1::real)) [1000 * 9..<1000 * 9 + 999]"
  have "(9999::nat) = 0 + (1000 * 9 + 999)" by simp
  then have "[0..<9999] = [0..<1000 * 9] @ [1000 * 9..<1000 * 9 + 999]"
    using upt_add_eq_append[of 0 "1000 * 9" 999] by (simp only: le0 add_0)
  then have steps: "map (\<lambda>offset. (offset, 1::real)) [0..<9999]
                      = map (\<lambda>offset. (offset, 1)) [0..<1000 * 9] @ ?st"
    by (simp only: map_append)
  have sum: "foldl (+) 0 (map snd ?st) = 999"
    unfolding constant_steps_losses by (simp add: foldl_add_replicate)
  have len: "length ?st = 999" by (simp del: upt_rec_numeral)
  have "run_steps (exact_env p q) ?st ?s
          = ?s\<lparr>total_loss := foldl (float_add (exact_env p q)) 0 (map snd ?st),
                batch_counter := length ?st\<rparr>"
    by (rule run_steps_inside_batch) (simp_all add: BATCH_SIZE_def del: upt_rec_numeral)
  then have "run_steps (exact_env p q) ?st ?s
          = \<lparr>batch_counter = 999, total_loss = 999, min_loss = Finite 1,
        events = [Save p, Generate_sentence]\<rparr>"
    unfolding exact_env_fields sum len by simp
  moreover have "run_steps (exact_env p q) (map (\<lambda>offset. (offset, 1)) [0..<1000 * 9])
                   (initial_state Infinity) = ?s"
    by (rule constant_run) simp_all
  ultimately show ?thesis
    unfolding steps run_steps_append by (simp only:)
qed

lemma mixed_run_inside:
  "run_steps (exact_env p q)
     (map (\<lambda>offset. (offset, if offset < 875 then 1 / 2 else 1 / 2 - 1 / 2 ^ 25)) [0..<999])
     (initial_state (Finite (1 / 2)))
   = \<lparr>batch_counter = 999, total_loss = 875 / 2 + 124 * (1 / 2 - 1 / 2 ^ 25),
      min_loss = Finite (1 / 2), events = []\<rparr>"
proof -
  let ?f = "\<lambda>offset. (offset, if offset < 875 then 1 / 2 else 1 / 2 - 1 / 2 ^ 25 :: real)"
  have "(999::nat) = 0 + (875 + 124)" by simp
  then have split: "[0..<999] = [0..<0 + 875] @ [875..<875 + 124]"
    using upt_add_eq_append[of 0 875 124] by (simp only: le0 add_0)
  have a: "map ?f [0..<0 + 875] = map (\<lambda>offset. (offset, 1 / 2)) [0..<0 + 875]"
  proof (rule map_cong[OF refl])
    fix x :: nat assume "x \<in> set [0..<0 + 875]"
    then have "x < 875" by (simp only: set_upt atLeastLessThan_iff add_0)
    then show "?f x = (x, 1 / 2)" by simp
  qed
  have b: "map ?f [875..<875 + 124] = map (\<lambda>offset. (offset, 1 / 2 - 1 / 2 ^ 25)) [875..<875 + 124]"
  proof (rule map_cong[OF refl])
    fix x :: nat assume "x \<in> set [875..<875 + 124]"
    then have "875 \<le> x" by (simp only: set_upt atLeastLessThan_iff)
    then show "?f x = (x, 1 / 2 - 1 / 2 ^ 25)" by simp
  qed
  have losses: "map snd (map ?f [0..<999]) = replicate 875 (1 / 2) @ replicate 124 (1 / 2 - 1 / 2 ^ 25)"
    unfolding split map_append a b constant_steps_losses ..
  have sum: "foldl (+) 0 (map snd (map ?f [0..<999])) = 875 / 2 + 124 * (1 / 2 - 1 / 2 ^ 25)"
    unfolding losses foldl_append foldl_add_replicate by simp
  have len: "length (map ?f [0..<999]) = 999" by (simp del: upt_rec_numeral)
  have "run_steps (exact_env p q) (map ?f [0..<999]) (initial_state (Finite (1 / 2)))
          = (initial_state (Finite (1 / 2)))
              \<lparr>total_loss := foldl (float_add (exact_env p q)) 0 (map snd (map ?f [0..<999])),
               batch_counter := length (map ?f [0..<999])\<rparr>"
    by (rule run_steps_inside_batch)
       (simp_all add: BATCH_SIZE_def initial_state_def del: upt_rec_numeral)
  then show ?thesis
    unfolding exact_env_fields sum len by (simp add: initial_state_def del: upt_rec_numeral)
qed

text \<open>
  Claim C4, as the code has it.  Take a run of the loop from the initial state, whose
  \<open>min_loss\<close> is infinite or a float32 number, and the step that follows \<open>steps\<close>.  The step
  is a batch boundary exactly when it is a \<open>BATCH_SIZE\<close>-th step, and \<open>current_loss\<close> is
  the mean computed there, of the last \<open>BATCH_SIZE\<close> losses.  The step saves to the model
  path and generates when it is a boundary and \<open>current_loss\<close> is strictly below
  \<open>min_loss\<close> (an improvement); otherwise, at a boundary whose offset is the last of a
  \<open>GENERATE_INCREMENT\<close>, it saves to the final path; otherwise it saves nothing.  So,
  when the two paths differ, the model path is written exactly on a strict improvement.
  \<open>min_loss\<close> becomes the float32 value of \<open>current_loss\<close> on an improvement and is
  unchanged otherwise, and it never increases.
\<close>

theorem checkpoint_on_improvement:
  assumes "m = Infinity \<or> (\<exists>z. to_float32 z = m)"
    and "s = run_steps env steps (initial_state m)"
    and "s' = train_step env offset loss s"
    and "boundary = ((length steps + 1) mod BATCH_SIZE = 0)"
    and "current_loss =
           float_div env
             (foldl (float_add env) 0 (drop (length steps + 1 - BATCH_SIZE) (map snd steps @ [loss])))
             (real BATCH_SIZE)"
    and "improved = (boundary \<and> \<not> bound_le (min_loss s) (Finite current_loss))"
  shows "events s' = events s @
           (if improved then [Save (save_model_path env), Generate_sentence]
            else if boundary \<and> offset mod GENERATE_INCREMENT = GENERATE_INCREMENT - 1
            then [Save (final_model_path env), Generate_sentence]
            else [])
       \<and> min_loss s' = (if improved then to_float32 current_loss else min_loss s)
       \<and> bound_le (min_loss s') (min_loss s)
       \<and> (save_model_path env \<noteq> final_model_path env \<longrightarrow>
            (Save (save_model_path env) \<in> set (drop (length (events s)) (events s')) \<longleftrightarrow> improved))"
proof -
  have imp: "improved = (boundary \<and> exceeds (min_loss s) current_loss)"
    unfolding assms(6) exceeds_iff ..
  have bnd: "batch_counter s + 1 \<ge> BATCH_SIZE \<longleftrightarrow> boundary"
    unfolding assms(4) by (rule run_steps_boundary(1)[OF assms(2)])
  have ev: "events s' = events s @
           (if improved then [Save (save_model_path env), Generate_sentence]
            else if boundary \<and> offset mod GENERATE_INCREMENT = GENERATE_INCREMENT - 1
            then [Save (final_model_path env), Generate_sentence]
            else [])"
    and ml: "min_loss s' = (if improved then to_float32 current_loss else min_loss s)"
  proof -
    show "events s' = events s @
           (if improved then [Save (save_model_path env), Generate_sentence]
            else if boundary \<and> offset mod GENERATE_INCREMENT = GENERATE_INCREMENT - 1
            then [Save (final_model_path env), Generate_sentence]
            else [])"
    proof (cases boundary)
      case True
      then have b: "batch_counter s + 1 \<ge> BATCH_SIZE" using bnd by simp
      have c: "float_div env (float_add env (total_loss s) loss) (real BATCH_SIZE) = current_loss"
        unfolding assms(5) run_steps_boundary(2)[OF assms(2) b] ..
      show ?thesis
        unfolding assms(3) train_step_boundary[OF b] c Let_def using True imp by simp
    next
      case False
      then have "batch_counter s + 1 < BATCH_SIZE" using bnd by simp
      then show ?thesis
        unfolding assms(3) using False imp by (simp add: train_step_inside)
    qed
    show "min_loss s' = (if improved then to_float32 current_loss else min_loss s)"
    proof (cases boundary)
      case True
      then have b: "batch_counter s + 1 \<ge> BATCH_SIZE" using bnd by simp
      have c: "float_div env (float_add env (total_loss s) loss) (real BATCH_SIZE) = current_loss"
        unfolding assms(5) run_steps_boundary(2)[OF assms(2) b] ..
      show ?thesis
        unfolding assms(3) train_step_boundary[OF b] c Let_def using True imp by simp
    next
      case False
      then have "batch_counter s + 1 < BATCH_SIZE" using bnd by simp
      then show ?thesis
        unfolding assms(3) using False imp by (simp add: train_step_inside)
    qed
  qed
  have le: "bound_le (min_loss s') (min_loss s)"
  proof (cases improved)
    case False
    then show ?thesis using ml by (simp add: bound_le_refl)
  next
    case True
    then have ex: "exceeds (min_loss s) current_loss" using imp by simp
    have new: "min_loss s' = to_float32 current_loss" using ml True by simp
    show ?thesis
    proof (cases "min_loss s")
      case Infinity
      then show ?thesis by (simp add: bound_le_Infinity)
    next
      case NegInfinity
      then show ?thesis using ex by simp
    next
      case (Finite y)
      then have lt: "current_loss < y" using ex by simp
      have "\<exists>z. to_float32 z = Finite y"
        using run_steps_min_loss[of env steps m] assms(1) Finite unfolding assms(2) by auto
      then obtain z where "to_float32 z = Finite y" by blast
      then have "bound_le (to_float32 current_loss) (Finite y)"
        using lt by (rule to_float32_no_overshoot)
      then show ?thesis using new Finite by simp
    qed
  qed
  have only: "Save (save_model_path env) \<in> set (drop (length (events s)) (events s')) \<longleftrightarrow> improved"
    if "save_model_path env \<noteq> final_model_path env"
    unfolding ev using that by auto
  from ev ml le only show ?thesis by blast
qed

theorem checkpoint_on_improvement_witness:
  "run_steps (exact_env ''saved_models/test_model'' ''saved_models/final'')
     (map (\<lambda>offset. (offset, 1)) [0..<999]) (initial_state Infinity)
     = \<lparr>batch_counter = 999, total_loss = 999, min_loss = Infinity, events = []\<rparr>
   \<and> train_step (exact_env ''saved_models/test_model'' ''saved_models/final'') 999 1
         \<lparr>batch_counter = 999, total_loss = 999, min_loss = Infinity, events = []\<rparr>
       = \<lparr>batch_counter = 0, total_loss = 0, min_loss = Finite 1,
          events = [Save ''saved_models/test_model'', Generate_sentence]\<rparr>
   \<and> (length (map (\<lambda>offset. (offset, 1::real)) [0..<999]) + 1) mod BATCH_SIZE = 0
   \<and> \<not> bound_le Infinity (Finite 1)
   \<and> bound_le (Finite 1) Infinity
   \<and> ''saved_models/test_model'' \<noteq> ''saved_models/final''
   \<and> Save ''saved_models/test_model''
         \<in> set (drop (length ([] :: event list)) [Save ''saved_models/test_model'', Generate_sentence])"
proof -
  let ?env = "exact_env ''saved_models/test_model'' ''saved_models/final''"
  let ?steps = "map (\<lambda>offset. (offset, 1::real)) [0..<0 + 999]"
  let ?s = "\<lparr>batch_counter = 999, total_loss = 999, min_loss = Infinity, events = []\<rparr>"
  let ?s' = "\<lparr>batch_counter = 0, total_loss = 0, min_loss = Finite 1,
          events = [Save ''saved_models/test_model'', Generate_sentence]\<rparr>"
  have len: "length ?steps = 999" by (simp del: upt_rec_numeral)
  have sum: "foldl (+) 0 (map snd ?steps) = 999"
    unfolding constant_steps_losses by (simp add: foldl_add_replicate)
  have "run_steps ?env ?steps (initial_state Infinity)
          = (initial_state Infinity)
              \<lparr>total_loss := foldl (float_add ?env) 0 (map snd ?steps),
               batch_counter := length ?steps\<rparr>"
    by (rule run_steps_inside_batch)
       (simp_all add: BATCH_SIZE_def initial_state_def del: upt_rec_numeral)
  then have s: "?s = run_steps ?env ?steps (initial_state Infinity)"
    unfolding exact_env_fields sum len by (simp add: initial_state_def)
  have bnd: "BATCH_SIZE \<le> batch_counter ?s + 1" by (simp add: BATCH_SIZE_def)
  have s': "?s' = train_step ?env 999 1 ?s"
    by (simp only: train_step_boundary[OF bnd] Let_def)
       (simp add: exact_env_fields BATCH_SIZE_def to_float32_one)
  have b: "True = ((length ?steps + 1) mod BATCH_SIZE = 0)"
    unfolding len by (simp add: BATCH_SIZE_def)
  have c: "1 = float_div ?env
             (foldl (float_add ?env) 0 (drop (length ?steps + 1 - BATCH_SIZE) (map snd ?steps @ [1])))
             (real BATCH_SIZE)"
    unfolding len exact_env_fields constant_steps_losses
    by (simp add: BATCH_SIZE_def foldl_add_replicate)
  have i: "True = (True \<and> \<not> bound_le (min_loss ?s) (Finite 1))" by simp
  have m: "Infinity = Infinity \<or> (\<exists>z. to_float32 z = Infinity)" by simp
  from checkpoint_on_improvement [OF m s s' b c i]
  have le: "bound_le (min_loss ?s') (min_loss ?s)"
    and only: "save_model_path ?env \<noteq> final_model_path ?env \<longrightarrow>
            (Save (save_model_path ?env) \<in> set (drop (length (events ?s)) (events ?s')) \<longleftrightarrow> True)"
    by blast+
  have ne: "''saved_models/test_model'' \<noteq> ''saved_models/final''" by simp
  have 1: "bound_le (Finite 1) Infinity" using le by simp
  have 2: "Save ''saved_models/test_model''
         \<in> set (drop (length ([] :: event list)) [Save ''saved_models/test_model'', Generate_sentence])"
    using only ne by (simp add: exact_env_fields)
  have 3: "(length (map (\<lambda>offset. (offset, 1::real)) [0..<999]) + 1) mod BATCH_SIZE = 0"
    using b by (simp only: add_0)
  have 4: "\<not> bound_le Infinity (Finite 1)" by simp
  have 5: "run_steps ?env (map (\<lambda>offset. (offset, 1)) [0..<999]) (initial_state Infinity) = ?s"
    using s by (simp only: add_0)
  from 5 s'[symmetric] 3 4 1 ne 2 show ?thesis by blast
qed

text \<open>
  Two runs against the claim as it was stated.  With the model file named \<open>final\<close> and
  the constant loss 1, the step at offset 9999 writes the model path although its mean
  1 is not below the minimum 1.  With a restored minimum of \<open>1/2\<close> and 875 losses
  \<open>1/2\<close> followed by 125 losses \<open>1/2 - 2^-25\<close> (all of them float32 numbers), the mean
  \<open>1/2 - 2^-28\<close> is strictly below the minimum, the checkpoint is saved, and the stored
  minimum is \<open>1/2\<close> again: it neither changes nor equals the mean.
\<close>

theorem checkpoint_counterexample:
  "run_steps (exact_env ''saved_models/final'' ''saved_models/final'')
     (map (\<lambda>offset. (offset, 1)) [0..<9999]) (initial_state Infinity)
     = \<lparr>batch_counter = 999, total_loss = 999, min_loss = Finite 1,
        events = [Save ''saved_models/final'', Generate_sentence]\<rparr>
   \<and> \<not> exceeds (Finite 1) ((999 + 1) / real BATCH_SIZE)
   \<and> train_step (exact_env ''saved_models/final'' ''saved_models/final'') 9999 1
         \<lparr>batch_counter = 999, total_loss = 999, min_loss = Finite 1,
          events = [Save ''saved_models/final'', Generate_sentence]\<rparr>
       = \<lparr>batch_counter = 0, total_loss = 0, min_loss = Finite 1,
          events = [Save ''saved_models/final'', Generate_sentence,
                    Save ''saved_models/final'', Generate_sentence]\<rparr>
   \<and> run_steps (exact_env ''saved_models/test_model'' ''saved_models/final'')
         (map (\<lambda>offset. (offset, if offset < 875 then 1 / 2 else 1 / 2 - 1 / 2 ^ 25)) [0..<999])
         (initial_state (Finite (1 / 2)))
       = \<lparr>batch_counter = 999, total_loss = 875 / 2 + 124 * (1 / 2 - 1 / 2 ^ 25),
          min_loss = Finite (1 / 2), events = []\<rparr>
   \<and> (875 / 2 + 124 * (1 / 2 - 1 / 2 ^ 25) + (1 / 2 - 1 / 2 ^ 25)) / real BATCH_SIZE
       = 1 / 2 - 1 / 2 ^ 28
   \<and> exceeds (Finite (1 / 2)) (1 / 2 - 1 / 2 ^ 28)
   \<and> train_step (exact_env ''saved_models/test_model'' ''saved_models/final'') 999
         (1 / 2 - 1 / 2 ^ 25)
         \<lparr>batch_counter = 999, total_loss = 875 / 2 + 124 * (1 / 2 - 1 / 2 ^ 25),
          min_loss = Finite (1 / 2), events = []\<rparr>
       = \<lparr>batch_counter = 0, total_loss = 0, min_loss = Finite (1 / 2),
          events = [Save ''saved_models/test_model'', Generate_sentence]\<rparr>"
proof -
  have mean: "(875 / 2 + 124 * (1 / 2 - 1 / 2 ^ 25) + (1 / 2 - 1 / 2 ^ 25)) / real BATCH_SIZE
       = (1 / 2 - 1 / 2 ^ 28 :: real)"
    by (simp add: BATCH_SIZE_def)
  have a: "train_step (exact_env ''saved_models/final'' ''saved_models/final'') 9999 1
         \<lparr>batch_counter = 999, total_loss = 999, min_loss = Finite 1,
          events = [Save ''saved_models/final'', Generate_sentence]\<rparr>
       = \<lparr>batch_counter = 0, total_loss = 0, min_loss = Finite 1,
          events = [Save ''saved_models/final'', Generate_sentence,
                    Save ''saved_models/final'', Generate_sentence]\<rparr>"
    by (subst train_step_boundary)
       (simp_all add: BATCH_SIZE_def GENERATE_INCREMENT_def exact_env_fields)
  have b: "train_step (exact_env ''saved_models/test_model'' ''saved_models/final'') 999
         (1 / 2 - 1 / 2 ^ 25)
         \<lparr>batch_counter = 999, total_loss = 875 / 2 + 124 * (1 / 2 - 1 / 2 ^ 25),
          min_loss = Finite (1 / 2), events = []\<rparr>
       = \<lparr>batch_counter = 0, total_loss = 0, min_loss = Finite (1 / 2),
          events = [Save ''saved_models/test_model'', Generate_sentence]\<rparr>"
  proof -
    let ?env = "exact_env ''saved_models/test_model'' ''saved_models/final''"
    let ?s = "\<lparr>batch_counter = 999, total_loss = 875 / 2 + 124 * (1 / 2 - 1 / 2 ^ 25),
          min_loss = Finite (1 / 2), events = []\<rparr>"
    have bnd: "BATCH_SIZE \<le> batch_counter ?s + 1" by (simp add: BATCH_SIZE_def)
    have cur: "float_div ?env (float_add ?env (total_loss ?s) (1 / 2 - 1 / 2 ^ 25)) (real BATCH_SIZE)
                 = 1 / 2 - 1 / 2 ^ 28"
      unfolding exact_env_fields using mean by simp
    show ?thesis
      by (simp only: train_step_boundary[OF bnd] Let_def cur to_float32_below_half)
         (simp add: exact_env_fields)
  qed
  have c: "\<not> exceeds (Finite 1) ((999 + 1) / real BATCH_SIZE)"
    by (simp add: BATCH_SIZE_def)
  have d: "exceeds (Finite (1 / 2)) (1 / 2 - 1 / 2 ^ 28)" by simp
  from constant_run_inside[of "''saved_models/final''" "''saved_models/final''"]
    mixed_run_inside[of "''saved_models/test_model''" "''saved_models/final''"] a b c d mean
  show ?thesis by blast
qed

section \<open>Properties of the sentence generator\<close>

subsection \<open>The seed\<close>

lemma draw_rand_key_admissible:
  "rand_key \<noteq> start_key \<Longrightarrow> rand_key \<noteq> end_key \<Longrightarrow>
   draw_rand_key randint start_key end_key n rand_key = Some rand_key"
  by (subst draw_rand_key.simps) simp

lemma draw_rand_key_retry:
  "rand_key = start_key \<or> rand_key = end_key \<Longrightarrow>
   draw_rand_key randint start_key end_key n rand_key
     = draw_rand_key randint start_key end_key (n + 1) (randint n)"
  by (subst draw_rand_key.simps) simp

lemma draw_rand_key_first:
  assumes "rand_key = start_key \<or> rand_key = end_key"
    and "\<forall>i < d. randint (n + i) = start_key \<or> randint (n + i) = end_key"
    and "randint (n + d) \<noteq> start_key" and "randint (n + d) \<noteq> end_key"
  shows "draw_rand_key randint start_key end_key n rand_key = Some (randint (n + d))"
  using assms
proof (induction d arbitrary: n rand_key)
  case 0
  then show ?case
    by (simp add: draw_rand_key_retry draw_rand_key_admissible)
next
  case (Suc d)
  have first: "randint n = start_key \<or> randint n = end_key"
    using Suc.prems(2) by (metis add.right_neutral zero_less_Suc)
  have rest: "\<forall>i < d. randint (Suc n + i) = start_key \<or> randint (Suc n + i) = end_key"
    using Suc.prems(2) by (metis Suc_less_eq add_Suc_shift)
  have "draw_rand_key randint start_key end_key (Suc n) (randint n) = Some (randint (Suc n + d))"
    using Suc.IH[OF first rest] Suc.prems(3,4) by simp
  then show ?case
    using Suc.prems(1) by (simp add: draw_rand_key_retry)
qed

lemma draw_rand_key_result:
  assumes "draw_rand_key randint start_key end_key n rand_key = Some k"
  shows "k \<noteq> start_key \<and> k \<noteq> end_key \<and> (k = rand_key \<or> (\<exists>m \<ge> n. k = randint m))"
  using assms
proof (induction rule: draw_rand_key.raw_induct[rotated, consumes 1])
  case (1 f randint start_key end_key n rand_key k)
  show ?case
  proof (cases "rand_key = start_key \<or> rand_key = end_key")
    case True
    then have "f randint start_key end_key (n + 1) (randint n) = Some k" using 1(2) by simp
    from 1(1)[OF this]
    have k: "k \<noteq> start_key" "k \<noteq> end_key"
      and d: "k = randint n \<or> (\<exists>m \<ge> n + 1. k = randint m)" by simp_all
    from d have "\<exists>m \<ge> n. k = randint m"
    proof
      assume "k = randint n"
      then show ?thesis by (intro exI[of _ n]) simp
    next
      assume "\<exists>m \<ge> n + 1. k = randint m"
      then obtain m where "m \<ge> n + 1" "k = randint m" by blast
      then show ?thesis by (intro exI[of _ m]) simp
    qed
    with k show ?thesis by simp
  next
    case False
    then show ?thesis using 1(2) by auto
  qed
qed

lemma draw_rand_key_terminates:
  assumes "randint m \<noteq> start_key" and "randint m \<noteq> end_key"
  shows "\<exists>k. draw_rand_key randint start_key end_key 0 start_key = Some k"
proof -
  define d where "d = (LEAST i. randint i \<noteq> start_key \<and> randint i \<noteq> end_key)"
  have ok: "randint d \<noteq> start_key \<and> randint d \<noteq> end_key"
    unfolding d_def using assms by (rule LeastI[of _ m, OF conjI])
  have before: "\<forall>i < d. randint (0 + i) = start_key \<or> randint (0 + i) = end_key"
    unfolding d_def using not_less_Least by fastforce
  have "draw_rand_key randint start_key end_key 0 start_key = Some (randint (0 + d))"
    by (rule draw_rand_key_first[OF _ before]) (use ok in simp_all)
  then show ?thesis by blast
qed

text \<open>
  Claim C6, as the code has it.  With draws in \<open>[0, vocab_size)\<close>, the choice of the seed
  ends exactly when some draw is neither the start nor the end key, and the window then
  consists of \<open>N_INPUT - 1\<close> start keys followed by one drawn key below \<open>vocab_size\<close>
  that is neither the start key nor the end key.  No other key is excluded.
\<close>

theorem seed_window_shape:
  assumes "\<forall>n. randint n < vocab_size"
  shows "(seed_window randint start_key end_key \<noteq> None
            \<longleftrightarrow> (\<exists>n. randint n \<noteq> start_key \<and> randint n \<noteq> end_key))
       \<and> (\<forall>w. seed_window randint start_key end_key = Some w \<longrightarrow>
             (\<exists>rand_key. w = replicate (N_INPUT - 1) start_key @ [rand_key]
                \<and> rand_key \<noteq> start_key \<and> rand_key \<noteq> end_key \<and> rand_key < vocab_size))"
proof -
  have res: "k \<noteq> start_key \<and> k \<noteq> end_key \<and> (\<exists>n. k = randint n)"
    if "draw_rand_key randint start_key end_key 0 start_key = Some k" for k
    using draw_rand_key_result[OF that] by blast
  have 1: "seed_window randint start_key end_key \<noteq> None
            \<longleftrightarrow> (\<exists>n. randint n \<noteq> start_key \<and> randint n \<noteq> end_key)"
  proof
    assume "seed_window randint start_key end_key \<noteq> None"
    then obtain k where "draw_rand_key randint start_key end_key 0 start_key = Some k"
      by (auto simp: seed_window_def split: option.splits)
    from res[OF this] show "\<exists>n. randint n \<noteq> start_key \<and> randint n \<noteq> end_key" by blast
  next
    assume "\<exists>n. randint n \<noteq> start_key \<and> randint n \<noteq> end_key"
    then obtain k where "draw_rand_key randint start_key end_key 0 start_key = Some k"
      using draw_rand_key_terminates by blast
    then show "seed_window randint start_key end_key \<noteq> None"
      by (simp add: seed_window_def)
  qed
  have 2: "\<exists>rand_key. w = replicate (N_INPUT - 1) start_key @ [rand_key]
                \<and> rand_key \<noteq> start_key \<and> rand_key \<noteq> end_key \<and> rand_key < vocab_size"
    if "seed_window randint start_key end_key = Some w" for w
  proof -
    from that obtain k where k: "draw_rand_key randint start_key end_key 0 start_key = Some k"
      and w: "w = replicate (N_INPUT - 1) start_key @ [k]"
      by (auto simp: seed_window_def split: option.splits)
    from res[OF k] assms have "k \<noteq> start_key \<and> k \<noteq> end_key \<and> k < vocab_size" by auto
    with w show ?thesis by blast
  qed
  from 1 2 show ?thesis by blast
qed

theorem seed_window_shape_witness:
  "(\<forall>n. (\<lambda>n. 2) n < (3::nat))
   \<and> seed_window (\<lambda>n. 2) 0 1 = Some [0, 0, 2]
   \<and> (\<exists>rand_key. [0, 0, 2] = replicate (N_INPUT - 1) 0 @ [rand_key]
         \<and> rand_key \<noteq> 0 \<and> rand_key \<noteq> 1 \<and> rand_key < (3::nat))"
proof -
  have h: "\<forall>n. (\<lambda>n. 2) n < (3::nat)" by simp
  have s: "seed_window (\<lambda>n. 2) 0 1 = Some [0, 0, 2]" by code_simp
  from seed_window_shape [OF h, of 0 1] s
  have "\<exists>rand_key. [0, 0, 2] = replicate (N_INPUT - 1) 0 @ [rand_key]
         \<and> rand_key \<noteq> 0 \<and> rand_key \<noteq> 1 \<and> rand_key < (3::nat)" by blast
  with h s show ?thesis by blast
qed

text \<open>
  The unknown marker is not excluded: on a corpus in which it occurs, it has a key of
  its own, and a draw of that key seeds the window.
\<close>

theorem seed_window_unknown_counterexample:
  "build_vocabulary ''<START>'' ''<END>'' [''<UNK> ha'']
     = Inr ([(''<START>'', 0), (''<UNK>'', 1), (''ha'', 2), (''<END>'', 3), ('''', 4)],
            [(0, ''<START>''), (1, ''<UNK>''), (2, ''ha''), (3, ''<END>''), (4, '''')])
   \<and> marker_keys ''<START>'' ''<END>''
         [(''<START>'', 0), (''<UNK>'', 1), (''ha'', 2), (''<END>'', 3), ('''', 4)] = Inr (3, 0)
   \<and> dict_get [(''<START>'', 0::nat), (''<UNK>'', 1), (''ha'', 2), (''<END>'', 3), ('''', 4)] ''<UNK>''
       = Inr 1
   \<and> seed_window (\<lambda>n. 1) 0 3 = Some [0, 0, 1]"
  by code_simp

subsection \<open>The decoding loop\<close>

lemma decode_cases:
  "(\<exists>e w. decode predict end_key is symbols = Inl e \<and> predict w = Inl e)
   \<or> (\<exists>app. decode predict end_key is symbols = Inr (symbols @ app)
         \<and> length app \<le> length is \<and> end_key \<notin> set app
         \<and> (\<forall>j < length app. predict (drop (is ! j) (symbols @ take j app)) = Inr (app ! j))
         \<and> (length app < length is \<longrightarrow>
               predict (drop (is ! length app) (symbols @ app)) = Inr end_key))"
proof (induction "is" arbitrary: symbols)
  case Nil
  show ?case by simp
next
  case (Cons i "is")
  show ?case
  proof (cases "predict (drop i symbols)")
    case (Inl e)
    then show ?thesis by auto
  next
    case (Inr p)
    show ?thesis
    proof (cases "p = end_key")
      case True
      have "decode predict end_key (i # is) symbols = Inr (symbols @ [])"
        using Inr True by simp
      moreover have "predict (drop ((i # is) ! length ([]::nat list)) (symbols @ [])) = Inr end_key"
        using Inr True by simp
      ultimately show ?thesis by (intro disjI2 exI[of _ "[]"]) simp
    next
      case False
      have step: "decode predict end_key (i # is) symbols = decode predict end_key is (symbols @ [p])"
        using Inr False by simp
      from Cons.IH[of "symbols @ [p]"] show ?thesis
      proof
        assume "\<exists>e w. decode predict end_key is (symbols @ [p]) = Inl e \<and> predict w = Inl e"
        then show ?thesis unfolding step by blast
      next
        assume "\<exists>app. decode predict end_key is (symbols @ [p]) = Inr ((symbols @ [p]) @ app)
         \<and> length app \<le> length is \<and> end_key \<notin> set app
         \<and> (\<forall>j < length app. predict (drop (is ! j) ((symbols @ [p]) @ take j app)) = Inr (app ! j))
         \<and> (length app < length is \<longrightarrow>
               predict (drop (is ! length app) ((symbols @ [p]) @ app)) = Inr end_key)"
        then obtain app where a: "decode predict end_key is (symbols @ [p]) = Inr ((symbols @ [p]) @ app)"
          and b: "length app \<le> length is" and c: "end_key \<notin> set app"
          and d: "\<forall>j < length app. predict (drop (is ! j) ((symbols @ [p]) @ take j app)) = Inr (app ! j)"
          and e: "length app < length is \<longrightarrow>
               predict (drop (is ! length app) ((symbols @ [p]) @ app)) = Inr end_key"
          by blast
        have 1: "decode predict end_key (i # is) symbols = Inr (symbols @ (p # app))"
          unfolding step a by simp
        have 2: "length (p # app) \<le> length (i # is)" using b by simp
        have 3: "end_key \<notin> set (p # app)" using c False by simp
        have 4: "\<forall>j < length (p # app).
                   predict (drop ((i # is) ! j) (symbols @ take j (p # app))) = Inr ((p # app) ! j)"
        proof (intro allI impI)
          fix j assume j: "j < length (p # app)"
          show "predict (drop ((i # is) ! j) (symbols @ take j (p # app))) = Inr ((p # app) ! j)"
          proof (cases j)
            case 0
            then show ?thesis using Inr by simp
          next
            case (Suc j')
            then have "j' < length app" using j by simp
            with d have "predict (drop (is ! j') ((symbols @ [p]) @ take j' app)) = Inr (app ! j')"
              by blast
            then show ?thesis using Suc by simp
          qed
        qed
        have 5: "length (p # app) < length (i # is) \<longrightarrow>
               predict (drop ((i # is) ! length (p # app)) (symbols @ (p # app))) = Inr end_key"
          using e by simp
        from 1 2 3 4 5 show ?thesis by blast
      qed
    qed
  qed
qed



lemma decode_window_no_error:
  assumes "\<forall>w. length w = N_INPUT \<longrightarrow> (\<exists>p. predict w = Inr p)"
    and "length symbols = N_INPUT + k"
  shows "\<exists>out. decode predict end_key [k..<n] symbols = Inr out"
  using assms(2)
proof (induction "n - k" arbitrary: k symbols)
  case 0
  then show ?case by simp
next
  case (Suc d)
  then have kn: "k < n" and d: "d = n - Suc k" by simp_all
  have up: "[k..<n] = k # [Suc k..<n]" using kn by (simp add: upt_conv_Cons)
  have "length (drop k symbols) = N_INPUT" using Suc.prems by simp
  with assms(1) obtain p where p: "predict (drop k symbols) = Inr p" by blast
  show ?case
  proof (cases "p = end_key")
    case True
    then show ?thesis unfolding up using p by simp
  next
    case False
    have "length (symbols @ [p]) = N_INPUT + Suc k" using Suc.prems by simp
    from Suc.hyps(1)[OF d this] show ?thesis unfolding up using p False by simp
  qed
qed

lemma predict_index_classification:
  assumes "length keys = N_INPUT" and "net keys \<noteq> []"
  shows "\<exists>p. predict_index net Classification keys = Inr p"
  using assms by (cases "net keys") (simp_all add: predict_index_def argmax_def)




text \<open>In classification mode no prediction raises, so the run returns a list of keys.\<close>

lemma generate_sentence_classification:
  assumes "generate_sentence randint (predict_index net Classification) start_key end_key sentence_length
             = Some res"
    and "\<forall>keys. net keys \<noteq> []"
  shows "\<exists>symbols. res = Inr symbols"
proof -
  from assms(1) obtain seed where seed: "seed_window randint start_key end_key = Some seed"
    and res: "res = decode (predict_index net Classification) end_key [0..<sentence_length] seed"
    by (auto simp: generate_sentence_def split: option.splits)
  from seed have len: "length seed = N_INPUT + 0"
    by (auto simp: seed_window_def N_INPUT_def split: option.splits)
  have "\<forall>w. length w = N_INPUT \<longrightarrow> (\<exists>p. predict_index net Classification w = Inr p)"
    using assms(2) predict_index_classification by blast
  from decode_window_no_error[OF this len] show ?thesis unfolding res by blast
qed

section \<open>Properties of the corpus reader\<close>

subsection \<open>Splitting at spaces\<close>

lemma split_space_nonempty: "split_space s \<noteq> []"
  by (induction s) (auto split: list.splits)

lemma split_space_append:
  "split_space (s @ CHR '' '' # t) = split_space s @ split_space t"
proof (induction s)
  case Nil
  show ?case by simp
next
  case (Cons c cs)
  obtain w ws where "split_space cs = w # ws"
    using split_space_nonempty[of cs] by (cases "split_space cs") auto
  then show ?case using Cons by simp
qed

lemma split_space_word: "CHR '' '' \<notin> set w \<Longrightarrow> split_space w = [w]"
  by (induction w) auto

lemma split_space_no_space: "w \<in> set (split_space s) \<Longrightarrow> CHR '' '' \<notin> set w"
proof (induction s arbitrary: w)
  case Nil
  then show ?case by simp
next
  case (Cons c cs)
  obtain v vs where v: "split_space cs = v # vs"
    using split_space_nonempty[of cs] by (cases "split_space cs") auto
  show ?case
  proof (cases "c = CHR '' ''")
    case True
    then show ?thesis using Cons by auto
  next
    case False
    then have "w = c # v \<or> w \<in> set vs" using Cons.prems v by simp
    then show ?thesis
    proof
      assume "w = c # v"
      moreover have "CHR '' '' \<notin> set v" using Cons.IH[of v] v by simp
      ultimately show ?thesis using False by simp
    next
      assume "w \<in> set vs"
      then show ?thesis using Cons.IH[of w] v by simp
    qed
  qed
qed


lemma split_join:
  assumes "ws \<noteq> []" and "\<forall>w \<in> set ws. CHR '' '' \<notin> set w"
  shows "split_space (butlast (concat (map (\<lambda>w. w @ '' '') ws))) = ws"
  using assms
proof (induction ws)
  case Nil
  then show ?case by simp
next
  case (Cons w ws)
  have w: "CHR '' '' \<notin> set w" using Cons.prems by simp
  show ?case
  proof (cases "ws = []")
    case True
    then show ?thesis using w by (simp add: butlast_append split_space_word)
  next
    case False
    then have ne: "concat (map (\<lambda>w. w @ '' '') ws) \<noteq> []" by (cases ws) auto
    have "butlast (concat (map (\<lambda>w. w @ '' '') (w # ws)))
            = w @ CHR '' '' # butlast (concat (map (\<lambda>w. w @ '' '') ws))"
      using ne by (simp add: butlast_append)
    moreover have "split_space (butlast (concat (map (\<lambda>w. w @ '' '') ws))) = ws"
      using Cons.IH False Cons.prems by simp
    ultimately show ?thesis
      using w by (simp add: split_space_append split_space_word)
  qed
qed

subsection \<open>The loop over the lines\<close>

lemma read_lines_blank:
  assumes "\<forall>line \<in> set corpus_file. line = [CHR 0x0A]"
  shows "read_lines START_TOKEN END_TOKEN corpus_file (punch_lines, sentence_length)
           = Inr (punch_lines, sentence_length)"
  using assms by (induction corpus_file) simp_all


lemma read_lines_ok:
  assumes "\<forall>line \<in> set corpus_file. line \<noteq> []"
  shows "\<exists>r. read_lines START_TOKEN END_TOKEN corpus_file acc = Inr r"
  using assms
proof (induction corpus_file arbitrary: acc)
  case Nil
  show ?case by simp
next
  case (Cons line rest)
  obtain p n where acc: "acc = (p, n)" by (cases acc)
  show ?case using Cons unfolding acc by (simp add: Let_def)
qed

lemma build_dataset_inverse:
  assumes "build_dataset words = (dictionary, reverse_dictionary)"
  shows "map_of dictionary w = Some i \<longleftrightarrow> map_of reverse_dictionary i = Some w"
    and "map_of dictionary w = Some i \<Longrightarrow> i < length dictionary \<and> w \<in> set words"
proof -
  let ?ws = "map fst (ranked words)"
  have len: "length (ranked words) = length ?ws" by simp
  have d: "dictionary = zip ?ws [0..<length ?ws]"
    and r: "reverse_dictionary = zip [0..<length ?ws] ?ws"
    using assms unfolding build_dataset_eq len by simp_all
  have dist: "distinct ?ws" by (rule ranked_distinct)
  show "map_of dictionary w = Some i \<longleftrightarrow> map_of reverse_dictionary i = Some w"
    unfolding d r using zip_upt_lookup[OF dist] upt_zip_lookup[of ?ws] by simp
  assume "map_of dictionary w = Some i"
  then have "i < length ?ws \<and> ?ws ! i = w"
    unfolding d zip_upt_lookup[OF dist] .
  moreover have "length dictionary = length ?ws" unfolding d by simp
  moreover have "set ?ws = set words" by (rule ranked_keys)
  ultimately show "i < length dictionary \<and> w \<in> set words"
    by (metis nth_mem)
qed

text \<open>
  Claim C8, as the code has it.  A corpus file without a non-blank line (every line is a
  lone newline, or there is no line) gives the token list \<open>['']\<close>, and the vocabulary has
  exactly one entry: the empty string, with index 0.
\<close>

theorem empty_corpus_vocabulary:
  assumes "\<forall>line \<in> set corpus_file. line = [CHR 0x0A]"
  shows "corpus_words START_TOKEN END_TOKEN corpus_file = Inr ([[]], 1)
       \<and> build_vocabulary START_TOKEN END_TOKEN corpus_file = Inr ([([], 0)], [(0, [])])"
proof -
  have w: "corpus_words START_TOKEN END_TOKEN corpus_file = Inr ([[]], 1)"
    by (simp add: corpus_words_def read_lines_blank[OF assms])
  have "build_dataset [[]] = ([([], 0)], [(0, [])])"
    by code_simp
  then show ?thesis using w by (simp add: build_vocabulary_def)
qed

theorem empty_corpus_vocabulary_witness:
  "[''\<newline>'', ''\<newline>''] = replicate 2 [CHR 0x0A]
   \<and> build_vocabulary ''<START>'' ''<END>'' [''\<newline>'', ''\<newline>''] = Inr ([('''', 0)], [(0, '''')])"
proof -
  have h: "\<forall>line \<in> set [''\<newline>'', ''\<newline>'']. line = [CHR 0x0A]" by simp
  have r: "[''\<newline>'', ''\<newline>''] = replicate 2 [CHR 0x0A]" by (simp add: numeral_2_eq_2)
  from empty_corpus_vocabulary [OF h, of "''<START>''" "''<END>''"] r
  show ?thesis by blast
qed

text \<open>
  The single entry is not a marker: for the empty file, and markers that are not the
  empty string, the only token is the empty string (and the lookup of the end marker at
  line 99 then fails).
\<close>

theorem empty_corpus_counterexample:
  "build_vocabulary ''<START>'' ''<END>'' [] = Inr ([('''', 0)], [(0, '''')])
   \<and> '''' \<noteq> ''<START>'' \<and> '''' \<noteq> ''<END>'' \<and> '''' \<noteq> ''<UNK>''
   \<and> marker_keys ''<START>'' ''<END>'' [('''', 0)] = Inl KeyError"
  by code_simp



section \<open>The end marker in generated sentences\<close>

lemma append_words_rendered:
  assumes "append_words reverse_dictionary start_key symbols acc = Inr sentence"
  shows "\<exists>ws. sentence = acc @ concat (map (\<lambda>w. w @ '' '') ws)
           \<and> list_all2 (\<lambda>k w. map_of reverse_dictionary k = Some w)
                (filter (\<lambda>k. k \<noteq> start_key) symbols) ws"
  using assms
proof (induction symbols arbitrary: acc)
  case Nil
  then show ?case by simp
next
  case (Cons symbol rest)
  show ?case
  proof (cases "symbol \<noteq> start_key")
    case True
    with Cons.prems obtain word where word: "map_of reverse_dictionary symbol = Some word"
      and rest: "append_words reverse_dictionary start_key rest (acc @ word @ '' '') = Inr sentence"
      by (auto simp: dict_get_def split: option.splits)
    from Cons.IH[OF rest] obtain ws where
      s: "sentence = (acc @ word @ '' '') @ concat (map (\<lambda>w. w @ '' '') ws)"
      and l: "list_all2 (\<lambda>k w. map_of reverse_dictionary k = Some w)
                (filter (\<lambda>k. k \<noteq> start_key) rest) ws"
      by blast
    have "sentence = acc @ concat (map (\<lambda>w. w @ '' '') (word # ws))" using s by simp
    moreover have "list_all2 (\<lambda>k w. map_of reverse_dictionary k = Some w)
                (filter (\<lambda>k. k \<noteq> start_key) (symbol # rest)) (word # ws)"
      using True word l by simp
    ultimately show ?thesis by blast
  next
    case False
    then have "append_words reverse_dictionary start_key rest acc = Inr sentence"
      using Cons.prems by simp
    from Cons.IH[OF this] show ?thesis using False by simp
  qed
qed

lemma append_words_ok:
  assumes "\<forall>k \<in> set symbols. k \<noteq> start_key \<longrightarrow> (\<exists>w. map_of reverse_dictionary k = Some w)"
  shows "\<exists>sentence. append_words reverse_dictionary start_key symbols acc = Inr sentence"
  using assms
proof (induction symbols arbitrary: acc)
  case Nil
  show ?case by simp
next
  case (Cons symbol rest)
  then show ?case by (cases "symbol = start_key") (auto simp: dict_get_def)
qed

lemma generate_sentence_symbols:
  assumes "generate_sentence randint predict start_key end_key sentence_length = Some (Inr symbols)"
  shows "\<exists>rand_key app. symbols = replicate (N_INPUT - 1) start_key @ [rand_key] @ app
           \<and> rand_key \<noteq> start_key \<and> rand_key \<noteq> end_key \<and> (\<exists>n. rand_key = randint n)
           \<and> length app \<le> sentence_length \<and> end_key \<notin> set app
           \<and> (\<forall>p \<in> set app. \<exists>w. predict w = Inr p)"
proof -
  from assms obtain seed where seed: "seed_window randint start_key end_key = Some seed"
    and dec: "decode predict end_key [0..<sentence_length] seed = Inr symbols"
    by (auto simp: generate_sentence_def split: option.splits)
  from seed obtain k where k: "draw_rand_key randint start_key end_key 0 start_key = Some k"
    and s: "seed = replicate (N_INPUT - 1) start_key @ [k]"
    by (auto simp: seed_window_def split: option.splits)
  from draw_rand_key_result[OF k]
  have k': "k \<noteq> start_key" "k \<noteq> end_key" "\<exists>n. k = randint n" by auto
  from decode_cases[of predict end_key "[0..<sentence_length]" seed] dec
  obtain app where a: "symbols = seed @ app" and b: "length app \<le> sentence_length"
    and c: "end_key \<notin> set app"
    and d: "\<forall>j < length app. predict (drop ([0..<sentence_length] ! j) (seed @ take j app)) = Inr (app ! j)"
    by auto
  have "\<forall>p \<in> set app. \<exists>w. predict w = Inr p"
    using d by (metis in_set_conv_nth)
  with a b c s k' show ?thesis by auto
qed

lemma reverse_dictionary_total:
  assumes "build_dataset words = (dictionary, reverse_dictionary)" and "k < length dictionary"
  shows "\<exists>w. map_of reverse_dictionary k = Some w"
proof -
  have "k \<in> snd ` set dictionary"
    using dictionary_indices(3)[OF assms(1)] assms(2) by simp
  then obtain w where "(w, k) \<in> set dictionary" by force
  then have "map_of dictionary w = Some k"
    using dictionary_indices(1)[OF assms(1)] by simp
  then show ?thesis using build_dataset_inverse(1)[OF assms(1)] by blast
qed

text \<open>
  Claim C10.  On the vocabulary of a corpus, with distinct start and end markers, the
  list of keys that a generation run returns never contains the end key, and a sentence
  rendered from it never has the end token among its space-separated words.  The
  sentence is rendered whenever the draws and the predictions are vocabulary indices.
\<close>

theorem end_key_never_decoded:
  assumes "corpus_words START_TOKEN END_TOKEN corpus_file = Inr (words, sentence_length)"
    and "build_dataset words = (dictionary, reverse_dictionary)"
    and "marker_keys START_TOKEN END_TOKEN dictionary = Inr (end_key, start_key)"
    and "START_TOKEN \<noteq> END_TOKEN"
    and "generate_sentence randint predict start_key end_key sentence_length = Some (Inr symbols)"
  shows "end_key \<notin> set symbols
       \<and> (\<forall>sentence. convert_indices_to_sentence reverse_dictionary start_key symbols = Inr sentence
             \<longrightarrow> END_TOKEN \<notin> set (split_space sentence))
       \<and> ((\<forall>n. randint n < length dictionary) \<and> (\<forall>w p. predict w = Inr p \<longrightarrow> p < length dictionary)
             \<longrightarrow> (\<exists>sentence. convert_indices_to_sentence reverse_dictionary start_key symbols
                               = Inr sentence))"
proof -
  note inv = build_dataset_inverse[OF assms(2)]
  from assms(3) have e: "map_of dictionary END_TOKEN = Some end_key"
    and s: "map_of dictionary START_TOKEN = Some start_key"
    by (auto simp: marker_keys_def dict_get_def split: option.splits)
  have keys: "start_key \<noteq> end_key"
  proof
    assume "start_key = end_key"
    then have "map_of reverse_dictionary end_key = Some START_TOKEN"
      using s inv(1) by simp
    moreover have "map_of reverse_dictionary end_key = Some END_TOKEN"
      using e inv(1) by simp
    ultimately show False using assms(4) by simp
  qed
  from generate_sentence_symbols[OF assms(5)] obtain rand_key app where
    sym: "symbols = replicate (N_INPUT - 1) start_key @ [rand_key] @ app"
    and rk: "rand_key \<noteq> start_key" "rand_key \<noteq> end_key" "\<exists>n. rand_key = randint n"
    and app: "end_key \<notin> set app" "\<forall>p \<in> set app. \<exists>w. predict w = Inr p"
    by blast
  have 1: "end_key \<notin> set symbols"
    unfolding sym using keys rk(2) app(1) by auto
  have 2: "END_TOKEN \<notin> set (split_space sentence)"
    if "convert_indices_to_sentence reverse_dictionary start_key symbols = Inr sentence"
    for sentence
  proof -
    from that obtain s0 where s0: "append_words reverse_dictionary start_key symbols [] = Inr s0"
      and sentence: "sentence = butlast s0"
      by (auto simp: convert_indices_to_sentence_def split: sum.splits)
    let ?ks = "filter (\<lambda>k. k \<noteq> start_key) symbols"
    from append_words_rendered[OF s0] obtain ws where
      ws: "s0 = concat (map (\<lambda>w. w @ '' '') ws)"
      and l: "list_all2 (\<lambda>k w. map_of reverse_dictionary k = Some w) ?ks ws"
      by auto
    have "rand_key \<in> set ?ks" unfolding sym using rk(1) by simp
    then have "?ks \<noteq> []" by (metis empty_iff list.set(1))
    then have ne: "ws \<noteq> []" using l by auto
    have each: "\<exists>k \<in> set symbols. map_of reverse_dictionary k = Some w" if "w \<in> set ws" for w
    proof -
      from that obtain j where j: "j < length ws" "ws ! j = w" by (metis in_set_conv_nth)
      then have "j < length ?ks" "map_of reverse_dictionary (?ks ! j) = Some w"
        using l by (auto simp: list_all2_conv_all_nth)
      moreover from this have "?ks ! j \<in> set ?ks" by (metis nth_mem)
      ultimately show ?thesis by auto
    qed
    from assms(1) obtain punch_lines where words: "words = split_space punch_lines"
      by (auto simp: corpus_words_def split: sum.splits)
    have nospace: "\<forall>w \<in> set ws. CHR '' '' \<notin> set w"
    proof
      fix w assume "w \<in> set ws"
      from each[OF this] obtain k where "map_of reverse_dictionary k = Some w" by blast
      then have "map_of dictionary w = Some k" using inv(1) by simp
      then have "w \<in> set words" using inv(2) by blast
      then show "CHR '' '' \<notin> set w" unfolding words by (rule split_space_no_space)
    qed
    have "END_TOKEN \<notin> set ws"
    proof
      assume "END_TOKEN \<in> set ws"
      from each[OF this] obtain k where k: "k \<in> set symbols"
        "map_of reverse_dictionary k = Some END_TOKEN" by blast
      then have "map_of dictionary END_TOKEN = Some k" using inv(1) by simp
      then have "k = end_key" using e by simp
      then show False using k(1) 1 by simp
    qed
    moreover have "split_space sentence = ws"
      unfolding sentence ws by (rule split_join[OF ne nospace])
    ultimately show ?thesis by simp
  qed
  have 3: "\<exists>sentence. convert_indices_to_sentence reverse_dictionary start_key symbols = Inr sentence"
    if r: "\<forall>n. randint n < length dictionary"
      and p: "\<forall>w p. predict w = Inr p \<longrightarrow> p < length dictionary"
  proof -
    have "\<forall>k \<in> set symbols. k \<noteq> start_key \<longrightarrow> (\<exists>w. map_of reverse_dictionary k = Some w)"
    proof (intro ballI impI)
      fix k assume "k \<in> set symbols" "k \<noteq> start_key"
      then have "k = rand_key \<or> k \<in> set app" unfolding sym by auto
      then have "k < length dictionary" using rk(3) r app(2) p by auto
      then show "\<exists>w. map_of reverse_dictionary k = Some w"
        by (rule reverse_dictionary_total[OF assms(2)])
    qed
    from append_words_ok[OF this, of "[]"] show ?thesis
      by (auto simp: convert_indices_to_sentence_def)
  qed
  from 1 2 3 show ?thesis by blast
qed

theorem end_key_never_decoded_witness:
  "corpus_words ''<START>'' ''<END>'' [''ha ha\<newline>'']
     = Inr ([''<START>'', ''<START>'', ''<START>'', ''ha'', ''ha'', ''<END>'', ''''], 5)
   \<and> build_dataset [''<START>'', ''<START>'', ''<START>'', ''ha'', ''ha'', ''<END>'', '''']
       = ([(''<START>'', 0), (''ha'', 1), (''<END>'', 2), ('''', 3)],
          [(0, ''<START>''), (1, ''ha''), (2, ''<END>''), (3, '''')])
   \<and> marker_keys ''<START>'' ''<END>'' [(''<START>'', 0), (''ha'', 1), (''<END>'', 2), ('''', 3)]
       = Inr (2, 0)
   \<and> ''<START>'' \<noteq> ''<END>''
   \<and> generate_sentence (\<lambda>n. 1) (\<lambda>w. Inr (if last w = 1 then 3 else 2)) 0 2 5
       = Some (Inr [0, 0, 1, 3])
   \<and> 2 \<notin> set [0, 0, 1, 3::nat]
   \<and> convert_indices_to_sentence [(0, ''<START>''), (1, ''ha''), (2, ''<END>''), (3, '''')] 0 [0, 0, 1, 3]
       = Inr ''ha ''
   \<and> ''<END>'' \<notin> set (split_space ''ha '')"
proof -
  let ?d = "[(''<START>'', 0::nat), (''ha'', 1), (''<END>'', 2), ('''', 3)]"
  let ?r = "[(0::nat, ''<START>''), (1, ''ha''), (2, ''<END>''), (3, '''')]"
  let ?words = "[''<START>'', ''<START>'', ''<START>'', ''ha'', ''ha'', ''<END>'', '''']"
  let ?predict = "\<lambda>w. Inr (if last w = 1 then 3 else 2) :: error + nat"
  have c: "corpus_words ''<START>'' ''<END>'' [''ha ha\<newline>''] = Inr (?words, 5)"
    by code_simp
  have b: "build_dataset ?words = (?d, ?r)"
    by code_simp
  have m: "marker_keys ''<START>'' ''<END>'' ?d = Inr (2, 0)"
    by code_simp
  have n: "''<START>'' \<noteq> ''<END>''"
    by simp
  have g: "generate_sentence (\<lambda>n. 1) ?predict 0 2 5 = Some (Inr [0, 0, 1, 3])"
    by code_simp
  have s: "convert_indices_to_sentence ?r 0 [0, 0, 1, 3] = Inr ''ha ''"
    by code_simp
  from end_key_never_decoded [OF c b m n g] s
  have "2 \<notin> set [0, 0, 1, 3::nat]" and "''<END>'' \<notin> set (split_space ''ha '')"
    by blast+
  with c b m n g s show ?thesis by blast
qed

section \<open>The predicted index\<close>

lemma fold_max_ge: "fold max xs (a::real) \<ge> a"
proof (induction xs arbitrary: a)
  case Nil
  show ?case by simp
next
  case (Cons y ys)
  have "a \<le> max y a" by simp
  also have "max y a \<le> fold max ys (max y a)" by (rule Cons)
  finally show ?case by simp
qed

lemma fold_max_upper: "\<forall>x \<in> set (a # xs). x \<le> fold max xs (a::real)"
proof (induction xs arbitrary: a)
  case Nil
  show ?case by simp
next
  case (Cons y ys)
  have "max y a \<le> fold max ys (max y a)" by (rule fold_max_ge)
  then have "a \<le> fold max ys (max y a)" "y \<le> fold max ys (max y a)" by simp_all
  then show ?case using Cons[of "max y a"] by simp
qed

lemma fold_max_mem: "fold max xs (a::real) \<in> set (a # xs)"
proof (induction xs arbitrary: a)
  case Nil
  show ?case by simp
next
  case (Cons y ys)
  have "max y a = a \<or> max y a = y" by (simp add: max_def)
  then show ?case using Cons[of "max y a"] by auto
qed

lemma first_pos_nth: "w \<in> set ws \<Longrightarrow> ws ! first_pos w ws = w"
  unfolding first_pos_def by (induction ws) auto

lemma first_pos_first: "j < first_pos w ws \<Longrightarrow> ws ! j \<noteq> w"
  unfolding first_pos_def using nth_length_takeWhile
  by (metis (mono_tags, lifting) takeWhile_nth nth_mem set_takeWhileD)

lemma argmax_maximum:
  assumes "argmax pred_output = Inr pred_index"
  shows "pred_index < length pred_output
       \<and> (\<forall>x \<in> set pred_output. x \<le> pred_output ! pred_index)
       \<and> (\<forall>j < pred_index. pred_output ! j < pred_output ! pred_index)"
proof -
  from assms obtain a xs where p: "pred_output = a # xs"
    and i: "pred_index = first_pos (fold max xs a) (a # xs)"
    by (auto simp: argmax_def split: list.splits)
  let ?m = "fold max xs a"
  have mem: "?m \<in> set (a # xs)" by (rule fold_max_mem)
  have up: "\<forall>x \<in> set (a # xs). x \<le> ?m" by (rule fold_max_upper)
  have 1: "pred_index < length pred_output"
    unfolding p i by (rule first_pos_less[OF mem])
  have 2: "pred_output ! pred_index = ?m"
    unfolding p i by (rule first_pos_nth[OF mem])
  have 3: "pred_output ! j < ?m" if "j < pred_index" for j
  proof -
    have "(a # xs) ! j \<noteq> ?m" using that unfolding i by (rule first_pos_first)
    moreover have "j < length (a # xs)" using that 1 unfolding p by simp
    then have "(a # xs) ! j \<in> set (a # xs)" by (rule nth_mem)
    then have "(a # xs) ! j \<le> ?m" using up by blast
    ultimately show ?thesis unfolding p by simp
  qed
  from 1 2 3 up show ?thesis unfolding p by simp
qed

lemma predict_index_classification_maximum:
  assumes "predict_index net Classification keys = Inr pred_index"
  shows "pred_index < length (net keys)
       \<and> (\<forall>x \<in> set (net keys). x \<le> net keys ! pred_index)"
proof -
  from assms have "argmax (net keys) = Inr pred_index"
    by (simp add: predict_index_def Let_def split: if_splits)
  from argmax_maximum[OF this] show ?thesis by blast
qed

text \<open>
  Claim C7, the embedding mode.  Two table words \<open>a\<close> and \<open>b\<close> with the vectors \<open>(1, 10)\<close>
  and \<open>(5, 5)\<close>, and a network that predicts exactly the vector of \<open>b\<close>.  The row nearest
  to the prediction is row 1, the word \<open>b\<close> with index 1.  The code takes the norms along
  axis 0, that is of the two columns \<open>(-4, 0)\<close> and \<open>(5, 0)\<close>, and the position of the
  smaller one, 0, is looked up as if it were a row: the predicted index is 0, the
  word \<open>a\<close>.
\<close>

theorem embedding_mode_nearest_column:
  "embedding_rows [(''a'', [1, 10::real]), (''b'', [5, 5])] [(''a'', 0), (''b'', 1)]
     = ([[1, 10], [5, 5]], [(0, 0), (1, 1)], 2)
   \<and> norm_axis0 (subtract_row [[1, 10], [5, 5]] [5, 5]) = [4, 5]
   \<and> predict_index (\<lambda>keys. [5, 5]) (Embedding [[1, 10], [5, 5]] [(0, 0), (1, 1)]) [0, 0, 1] = Inr 0
   \<and> map l2_norm (subtract_row [[1, 10], [5, 5]] [5, 5]) = [sqrt 41, 0]
   \<and> nearest_row_index [[1, 10], [5, 5]] [(0, 0), (1, 1)] [5, 5] = Inr 1"
proof -
  have s16: "sqrt 16 = 4" using real_sqrt_unique[of 4 16] by simp
  have s25: "sqrt 25 = 5" using real_sqrt_unique[of 5 25] by simp
  have rows: "embedding_rows [(''a'', [1, 10::real]), (''b'', [5, 5])] [(''a'', 0), (''b'', 1)]
     = ([[1, 10], [5, 5]], [(0, 0), (1, 1)], 2)"
    by (simp add: embedding_rows_def)
  have sub: "subtract_row [[1, 10], [5, 5]] [5, 5] = [[- 4, 5], [0, 0]]"
    by (simp add: subtract_row_def)
  have tr: "transpose [[- 4, 5], [0, 0::real]] = [[- 4, 0], [5, 0]]"
    by code_simp
  have cols: "norm_axis0 (subtract_row [[1, 10], [5, 5]] [5, 5]) = [4, 5]"
    unfolding sub norm_axis0_def tr by (simp add: l2_norm_def s16 s25)
  have amin: "argmin [4, 5] = Inr 0"
    by (simp add: argmin_def first_pos_def)
  have code: "predict_index (\<lambda>keys. [5, 5]) (Embedding [[1, 10], [5, 5]] [(0, 0), (1, 1)]) [0, 0, 1] = Inr 0"
    by (simp add: predict_index_def N_INPUT_def cols amin dict_get_def)
  have dist: "map l2_norm (subtract_row [[1, 10], [5, 5]] [5, 5]) = [sqrt 41, 0]"
    unfolding sub by (simp add: l2_norm_def)
  have amin': "argmin [sqrt 41, 0] = Inr 1"
    by (simp add: argmin_def first_pos_def)
  have spec: "nearest_row_index [[1, 10], [5, 5]] [(0, 0), (1, 1)] [5, 5] = Inr 1"
    by (simp add: nearest_row_index_def dist amin' dict_get_def)
  from rows cols code dist spec show ?thesis by blast
qed

end
